theory Spec2Isabelle
  imports Main "HOL-Library.Multiset" "HOL-Library.AList" "HOL-Library.Sublist"
begin

section \<open>Blueprints and their flat ingredient lists\<close>

text \<open>
  A \<^verbatim>\<open>Blueprint\<close> object has three attributes. The \<^verbatim>\<open>materials\<close> dictionary is kept as
  the list of its items in insertion order; quantities are Python integers.
\<close>

record Blueprint =
  name :: string
  type :: string
  materials :: "(string \<times> int) list"

text \<open>
  \<^verbatim>\<open>materials_list\<close>: \<^verbatim>\<open>[mat] * qty\<close> for every item, flattened. Python's list repetition
  with a count below one gives the empty list, which is what \<^term>\<open>nat\<close> does here.
\<close>

definition materials_list :: "Blueprint \<Rightarrow> string list" where
  "materials_list b = concat (map (\<lambda>(mat, qty). replicate (nat qty) mat) (materials b))"

section \<open>The collection\<close>

text \<open>
  \<^verbatim>\<open>self.blueprints\<close> is a dictionary from names to blueprints, kept as the list of its
  items in insertion order. \<^verbatim>\<open>d[k]\<close> is \<^term>\<open>map_of\<close>, which is \<^term>\<open>None\<close> where Python
  raises \<^verbatim>\<open>KeyError\<close>.
\<close>

type_synonym blueprints = "(string \<times> Blueprint) list"

datatype error = KeyError string

definition warning :: string where
  "warning = ''WARNING! '{}' seems to already be part of the DB!''"

text \<open>
  \<^verbatim>\<open>add_blueprint\<close> prints a warning when the name is already a key and then stores
  the blueprint under its name. Storing under an existing key keeps the key's position,
  storing under a new key appends: \<^term>\<open>AList.update\<close>. The result is the printed
  lines and the new collection.
\<close>

definition add_blueprint :: "blueprints \<Rightarrow> Blueprint \<Rightarrow> string list \<times> blueprints" where
  "add_blueprint bps blueprint =
     ((if name blueprint \<in> set (map fst bps) then [warning] else []),
      AList.update (name blueprint) blueprint bps)"

definition size_bps :: "blueprints \<Rightarrow> nat" where
  "size_bps bps = length bps"

section \<open>Resolution\<close>

text \<open>
  The \<^verbatim>\<open>for\<close> loop of \<^verbatim>\<open>find_materials\<close> walks \<^verbatim>\<open>result\<close> by position while the body
  appends to it, so it ends only when the position reaches the current length. It may
  run forever; not returning is the value \<^term>\<open>None\<close>.
\<close>

partial_function (option) expand_loop ::
  "blueprints \<Rightarrow> string list \<Rightarrow> nat list \<Rightarrow> nat \<Rightarrow> (string list \<times> nat list) option" where
  "expand_loop bps result to_remove idx =
     (if idx < length result then
        (case map_of bps (result ! idx) of
           Some b \<Rightarrow> expand_loop bps (result @ materials_list b) (to_remove @ [idx]) (Suc idx)
         | None \<Rightarrow> expand_loop bps result to_remove (Suc idx))
      else Some (result, to_remove))"

declare expand_loop.simps [code]

text \<open>The returned comprehension: the entries whose position was not marked.\<close>

definition unmarked :: "string list \<Rightarrow> nat list \<Rightarrow> string list" where
  "unmarked result to_remove =
     map (\<lambda>i. result ! i) (filter (\<lambda>i. i \<notin> set to_remove) [0..<length result])"

definition find_materials :: "blueprints \<Rightarrow> string \<Rightarrow> (error + string list) option" where
  "find_materials bps item_name =
     (case map_of bps item_name of
        None \<Rightarrow> Some (Inl (KeyError item_name))
      | Some b \<Rightarrow>
          (case expand_loop bps (materials_list b) [] 0 of
             None \<Rightarrow> None
           | Some (result, to_remove) \<Rightarrow> Some (Inr (unmarked result to_remove))))"

section \<open>Packing\<close>

text \<open>
  \<^verbatim>\<open>{ k: a_list.count( k ) for k in set( a_list ) }\<close>: a dictionary read as a map. The
  order in which \<^verbatim>\<open>set\<close> yields its elements does not show in the map.
\<close>

definition pack_list :: "string list \<Rightarrow> (string \<rightharpoonup> int)" where
  "pack_list a_list = map_of (map (\<lambda>k. (k, int (count_list a_list k))) (remdups a_list))"


section \<open>Keyword search\<close>

text \<open>\<^verbatim>\<open>sub in s\<close> on strings: \<^verbatim>\<open>sub\<close> starts at some position of \<^verbatim>\<open>s\<close>.\<close>

fun str_contains :: "string \<Rightarrow> string \<Rightarrow> bool" where
  "str_contains [] sub = (sub = [])"
| "str_contains (c # cs) sub = (take (length sub) (c # cs) = sub \<or> str_contains cs sub)"

text \<open>
  \<^verbatim>\<open>str.lower\<close> belongs to the Python runtime, not to the repository. The search takes
  it as the parameter \<open>lower\<close>, which may be any function on strings.
\<close>

definition blueprint_matches :: "(string \<Rightarrow> string) \<Rightarrow> blueprints \<Rightarrow> string \<Rightarrow> string list" where
  "blueprint_matches lower bps keyword =
     filter (\<lambda>k. str_contains (lower k) (lower keyword)) (map fst bps)"

text \<open>
  The dictionary comprehension over the matches, in order. A resolution that raises or
  does not return ends the whole comprehension the same way. The matches are keys of a
  dictionary, hence distinct, so the items of the result are listed in their order.
\<close>

fun resolve_matches ::
  "blueprints \<Rightarrow> string list \<Rightarrow> (error + (string \<times> (string \<rightharpoonup> int)) list) option" where
  "resolve_matches bps [] = Some (Inr [])"
| "resolve_matches bps (k # ks) =
     (case find_materials bps k of
        None \<Rightarrow> None
      | Some (Inl e) \<Rightarrow> Some (Inl e)
      | Some (Inr found) \<Rightarrow>
          (case resolve_matches bps ks of
             None \<Rightarrow> None
           | Some (Inl e) \<Rightarrow> Some (Inl e)
           | Some (Inr d) \<Rightarrow> Some (Inr ((k, pack_list found) # d))))"

definition find_keyword ::
  "(string \<Rightarrow> string) \<Rightarrow> blueprints \<Rightarrow> string \<Rightarrow>
     (error + (string \<times> (string \<rightharpoonup> int)) list) option" where
  "find_keyword lower bps keyword = resolve_matches bps (blueprint_matches lower bps keyword)"

text \<open>
  What \<^verbatim>\<open>str.lower\<close> does to a string of ASCII characters: the letters A to Z become a to
  z and every other character is kept. \<open>lowers_ascii\<close> says of a function that it does so
  on these strings; on other strings it may do anything. \<open>ascii_lower\<close> is one such
  function and is not meant to be \<^verbatim>\<open>str.lower\<close> beyond ASCII; the example collections,
  whose names and keywords are ASCII, are searched with it.
\<close>

definition ascii_lower_char :: "char \<Rightarrow> char" where
  "ascii_lower_char c =
     (if 65 \<le> (of_char c :: nat) \<and> (of_char c :: nat) \<le> 90
      then char_of ((of_char c :: nat) + 32) else c)"

definition ascii_lower :: "string \<Rightarrow> string" where
  "ascii_lower s = map ascii_lower_char s"





section \<open>The ingredient graph\<close>

text \<open>
  \<open>(m, k)\<close> is an edge when \<open>k\<close> is a blueprint of the collection and \<open>m\<close> occurs in its
  flat ingredient list, that is, with a quantity of at least one.
\<close>

definition ingredient_of :: "blueprints \<Rightarrow> (string \<times> string) set" where
  "ingredient_of bps = {(m, k). \<exists>b. map_of bps k = Some b \<and> m \<in> set (materials_list b)}"

text \<open>The data model's invariant on quantities: every stored quantity is at least one.\<close>

definition quantities_positive :: "blueprints \<Rightarrow> bool" where
  "quantities_positive bps = (\<forall>(k, b) \<in> set bps. \<forall>(m, q) \<in> set (materials b). 1 \<le> q)"

text \<open>
  What a list of pending names comes to when every name that is a blueprint is replaced
  by its flat ingredient list, again and again: the multiset of raw materials left, and
  the number of names looked at on the way. There is no derivation when the replacement
  never ends.
\<close>

inductive expands :: "blueprints \<Rightarrow> string list \<Rightarrow> nat \<Rightarrow> string multiset \<Rightarrow> bool"
  for bps :: blueprints where
  expands_Nil: "expands bps [] 0 {#}"
| expands_raw: "map_of bps x = None \<Longrightarrow> expands bps xs n M \<Longrightarrow>
     expands bps (x # xs) (Suc n) (add_mset x M)"
| expands_item: "map_of bps x = Some b \<Longrightarrow> expands bps (materials_list b) k K \<Longrightarrow>
     expands bps xs n M \<Longrightarrow> expands bps (x # xs) (Suc (k + n)) (K + M)"

section \<open>Weighted resolution\<close>

text \<open>
  The reference resolution that the specification sets beside the list expansion, written
  from its words: recursion over the ingredient graph with integer weights. The quantity
  needed of a name is passed down and multiplied by the quantity of each ingredient; a
  name that is not a blueprint adds its weight to the table of counts. The first
  argument bounds the depth of the recursion, and \<^term>\<open>None\<close> says that the bound was
  reached.
\<close>

fun resolve_weighted ::
    "nat \<Rightarrow> blueprints \<Rightarrow> string \<Rightarrow> int \<Rightarrow> (string \<rightharpoonup> int) \<Rightarrow> (string \<rightharpoonup> int) option"
  and resolve_each ::
    "nat \<Rightarrow> blueprints \<Rightarrow> (string \<times> int) list \<Rightarrow> int \<Rightarrow> (string \<rightharpoonup> int) \<Rightarrow> (string \<rightharpoonup> int) option"
  where
  "resolve_weighted 0 bps item qty counts = None"
| "resolve_weighted (Suc fuel) bps item qty counts =
     (case map_of bps item of
        None \<Rightarrow> Some (counts(item \<mapsto> (case counts item of None \<Rightarrow> 0 | Some c \<Rightarrow> c) + qty))
      | Some b \<Rightarrow> resolve_each fuel bps (materials b) qty counts)"
| "resolve_each fuel bps [] qty counts = Some counts"
| "resolve_each fuel bps ((mat, q) # rest) qty counts =
     (case resolve_weighted fuel bps mat (qty * q) counts of
        None \<Rightarrow> None
      | Some counts' \<Rightarrow> resolve_each fuel bps rest qty counts')"

definition resolve_materials_weighted ::
  "nat \<Rightarrow> blueprints \<Rightarrow> string \<Rightarrow> (error + (string \<rightharpoonup> int)) option" where
  "resolve_materials_weighted fuel bps item_name =
     (case map_of bps item_name of
        None \<Rightarrow> Some (Inl (KeyError item_name))
      | Some b \<Rightarrow> map_option Inr (resolve_each fuel bps (materials b) 1 Map.empty))"

text \<open>A multiset read as a table of counts: the names that occur, each with its count.\<close>

definition table_of :: "string multiset \<Rightarrow> (string \<rightharpoonup> int)" where
  "table_of M = (\<lambda>m. if m \<in># M then Some (int (count M m)) else None)"

section \<open>Example collections\<close>

definition bp :: "string \<Rightarrow> (string \<times> int) list \<Rightarrow> string \<times> Blueprint" where
  "bp n ms = (n, \<lparr>name = n, type = [], materials = ms\<rparr>)"

definition nested_db :: blueprints where
  "nested_db = [bp ''X'' [(''Y'', 2)], bp ''Y'' [(''Z'', 3)]]"

definition cyclic_db :: blueprints where
  "cyclic_db = [bp ''P'' [(''Q'', 1)], bp ''Q'' [(''P'', 1)]]"

definition flat_db :: blueprints where
  "flat_db = [bp ''W'' [(''A'', 2), (''B'', 3)]]"

definition iron_db :: blueprints where
  "iron_db = [bp ''Iron Sword'' [(''Scrap'', 2)], bp ''Bronze Axe'' [(''Scrap'', 1)]]"

section \<open>The methods on a store of objects\<close>

text \<open>
  The same methods with the objects of Python made explicit. The \<^verbatim>\<open>Blueprints\<close> object,
  every \<^verbatim>\<open>Blueprint\<close>, every dictionary and every list is an object at an address of a
  store; strings and integers are values. A new object gets the next free address, a
  method that changes an object (\<^verbatim>\<open>extend\<close>, \<^verbatim>\<open>append\<close>, \<^verbatim>\<open>d[k] = v\<close>) overwrites it at its
  address, and a name bound to an object holds its address, so two names may share one
  object. A list built by a comprehension and dropped within the same statement gets no
  address.
\<close>

type_synonym addr = nat

datatype obj =
    Blueprints_obj addr
  | Blueprint_obj string string addr
  | Int_dict "(string \<times> int) list"
  | Ref_dict "(string \<times> addr) list"
  | Str_list "string list"
  | Int_list "nat list"

type_synonym store = "obj list"

text \<open>
  What a method can raise: the \<^verbatim>\<open>KeyError\<close> of a failed lookup, or, where an address does
  not hold the kind of object the code takes it to hold, the error Python raises for a
  missing attribute or method.
\<close>

datatype fault = Raised error | Ill_typed

definition read :: "store \<Rightarrow> addr \<Rightarrow> obj option" where
  "read st a = (if a < length st then Some (st ! a) else None)"

definition alloc :: "store \<Rightarrow> obj \<Rightarrow> addr \<times> store" where
  "alloc st ob = (length st, st @ [ob])"

definition get_str_list :: "store \<Rightarrow> addr \<Rightarrow> fault + string list" where
  "get_str_list st a = (case read st a of Some (Str_list xs) \<Rightarrow> Inr xs | _ \<Rightarrow> Inl Ill_typed)"

definition get_int_list :: "store \<Rightarrow> addr \<Rightarrow> fault + nat list" where
  "get_int_list st a = (case read st a of Some (Int_list xs) \<Rightarrow> Inr xs | _ \<Rightarrow> Inl Ill_typed)"

definition get_int_dict :: "store \<Rightarrow> addr \<Rightarrow> fault + (string \<times> int) list" where
  "get_int_dict st a = (case read st a of Some (Int_dict d) \<Rightarrow> Inr d | _ \<Rightarrow> Inl Ill_typed)"

definition get_ref_dict :: "store \<Rightarrow> addr \<Rightarrow> fault + (string \<times> addr) list" where
  "get_ref_dict st a = (case read st a of Some (Ref_dict d) \<Rightarrow> Inr d | _ \<Rightarrow> Inl Ill_typed)"

definition get_blueprint :: "store \<Rightarrow> addr \<Rightarrow> fault + string \<times> string \<times> addr" where
  "get_blueprint st a =
     (case read st a of Some (Blueprint_obj n t m) \<Rightarrow> Inr (n, t, m) | _ \<Rightarrow> Inl Ill_typed)"

text \<open>\<^verbatim>\<open>self.blueprints\<close>: the address kept in the attribute, and the dictionary there.\<close>

definition get_blueprints_attr :: "store \<Rightarrow> addr \<Rightarrow> fault + addr" where
  "get_blueprints_attr st self =
     (case read st self of Some (Blueprints_obj d) \<Rightarrow> Inr d | _ \<Rightarrow> Inl Ill_typed)"

definition collection_dict :: "store \<Rightarrow> addr \<Rightarrow> fault + (string \<times> addr) list" where
  "collection_dict st self =
     (case get_blueprints_attr st self of Inl e \<Rightarrow> Inl e | Inr d \<Rightarrow> get_ref_dict st d)"

text \<open>\<^verbatim>\<open>materials_list\<close> reads the blueprint's dictionary and returns a new list.\<close>

definition materials_list_h :: "store \<Rightarrow> addr \<Rightarrow> (fault + addr) \<times> store" where
  "materials_list_h st b =
     (case get_blueprint st b of
        Inl e \<Rightarrow> (Inl e, st)
      | Inr (n, t, m) \<Rightarrow>
          (case get_int_dict st m of
             Inl e \<Rightarrow> (Inl e, st)
           | Inr items \<Rightarrow>
               (case alloc st (Str_list (concat (map (\<lambda>(mat, qty). replicate (nat qty) mat) items))) of
                  (a, st') \<Rightarrow> (Inr a, st'))))"

text \<open>\<^verbatim>\<open>a.extend( other )\<close> and \<^verbatim>\<open>a.append( i )\<close> change the list at \<open>a\<close>.\<close>

definition extend :: "store \<Rightarrow> addr \<Rightarrow> addr \<Rightarrow> (fault + unit) \<times> store" where
  "extend st a other =
     (case get_str_list st a of
        Inl e \<Rightarrow> (Inl e, st)
      | Inr xs \<Rightarrow>
          (case get_str_list st other of
             Inl e \<Rightarrow> (Inl e, st)
           | Inr ys \<Rightarrow> (Inr (), st[a := Str_list (xs @ ys)])))"

definition append_idx :: "store \<Rightarrow> addr \<Rightarrow> nat \<Rightarrow> (fault + unit) \<times> store" where
  "append_idx st a i =
     (case get_int_list st a of
        Inl e \<Rightarrow> (Inl e, st)
      | Inr xs \<Rightarrow> (Inr (), st[a := Int_list (xs @ [i])]))"

text \<open>
  The loop of \<^verbatim>\<open>find_materials\<close>: \<open>result\<close> and \<open>to_remove\<close> are the addresses of the two
  lists. Every round reads the list at \<open>result\<close> and the collection anew.
\<close>

partial_function (option) expand_loop_h ::
  "store \<Rightarrow> addr \<Rightarrow> addr \<Rightarrow> addr \<Rightarrow> nat \<Rightarrow> ((fault + unit) \<times> store) option" where
  "expand_loop_h st self result to_remove idx =
     (case get_str_list st result of
        Inl e \<Rightarrow> Some (Inl e, st)
      | Inr xs \<Rightarrow>
          if idx < length xs then
            (case collection_dict st self of
               Inl e \<Rightarrow> Some (Inl e, st)
             | Inr bd \<Rightarrow>
                 (case map_of bd (xs ! idx) of
                    None \<Rightarrow> expand_loop_h st self result to_remove (Suc idx)
                  | Some b \<Rightarrow>
                      (case materials_list_h st b of
                         (Inl e, st1) \<Rightarrow> Some (Inl e, st1)
                       | (Inr added, st1) \<Rightarrow>
                           (case extend st1 result added of
                              (Inl e, st2) \<Rightarrow> Some (Inl e, st2)
                            | (Inr u, st2) \<Rightarrow>
                                (case append_idx st2 to_remove idx of
                                   (Inl e, st3) \<Rightarrow> Some (Inl e, st3)
                                 | (Inr v, st3) \<Rightarrow>
                                     expand_loop_h st3 self result to_remove (Suc idx))))))
          else Some (Inr (), st))"

declare expand_loop_h.simps [code]

definition find_materials_h ::
  "store \<Rightarrow> addr \<Rightarrow> string \<Rightarrow> ((fault + addr) \<times> store) option" where
  "find_materials_h st self item_name =
     (case collection_dict st self of
        Inl e \<Rightarrow> Some (Inl e, st)
      | Inr bd \<Rightarrow>
          (case map_of bd item_name of
             None \<Rightarrow> Some (Inl (Raised (KeyError item_name)), st)
           | Some b \<Rightarrow>
               (case materials_list_h st b of
                  (Inl e, st1) \<Rightarrow> Some (Inl e, st1)
                | (Inr result, st1) \<Rightarrow>
                    (case alloc st1 (Int_list []) of
                       (to_remove, st2) \<Rightarrow>
                         (case expand_loop_h st2 self result to_remove 0 of
                            None \<Rightarrow> None
                          | Some (Inl e, st3) \<Rightarrow> Some (Inl e, st3)
                          | Some (Inr u, st3) \<Rightarrow>
                              (case get_str_list st3 result of
                                 Inl e \<Rightarrow> Some (Inl e, st3)
                               | Inr xs \<Rightarrow>
                                   (case get_int_list st3 to_remove of
                                      Inl e \<Rightarrow> Some (Inl e, st3)
                                    | Inr tr \<Rightarrow>
                                        (case alloc st3 (Str_list (unmarked xs tr)) of
                                           (a, st4) \<Rightarrow> Some (Inr a, st4)))))))))"

text \<open>\<^verbatim>\<open>pack_list\<close> returns a new dictionary; its keys are listed in order of first occurrence.\<close>

definition pack_list_h :: "store \<Rightarrow> addr \<Rightarrow> (fault + addr) \<times> store" where
  "pack_list_h st a =
     (case get_str_list st a of
        Inl e \<Rightarrow> (Inl e, st)
      | Inr xs \<Rightarrow>
          (case alloc st (Int_dict (map (\<lambda>k. (k, int (count_list xs k))) (remdups xs))) of
             (p, st') \<Rightarrow> (Inr p, st')))"

text \<open>\<^verbatim>\<open>d[k] = v\<close> on a dictionary of objects.\<close>

definition store_item :: "store \<Rightarrow> addr \<Rightarrow> string \<Rightarrow> addr \<Rightarrow> (fault + unit) \<times> store" where
  "store_item st d k v =
     (case get_ref_dict st d of
        Inl e \<Rightarrow> (Inl e, st)
      | Inr items \<Rightarrow> (Inr (), st[d := Ref_dict (AList.update k v items)]))"

text \<open>
  The dictionary comprehension of \<^verbatim>\<open>find_keyword\<close> fills the new dictionary at \<open>d\<close>, one
  match after the other.
\<close>

fun keyword_loop_h ::
  "store \<Rightarrow> addr \<Rightarrow> addr \<Rightarrow> string list \<Rightarrow> ((fault + unit) \<times> store) option" where
  "keyword_loop_h st self d [] = Some (Inr (), st)"
| "keyword_loop_h st self d (k # ks) =
     (case find_materials_h st self k of
        None \<Rightarrow> None
      | Some (Inl e, st1) \<Rightarrow> Some (Inl e, st1)
      | Some (Inr found, st1) \<Rightarrow>
          (case pack_list_h st1 found of
             (Inl e, st2) \<Rightarrow> Some (Inl e, st2)
           | (Inr p, st2) \<Rightarrow>
               (case store_item st2 d k p of
                  (Inl e, st3) \<Rightarrow> Some (Inl e, st3)
                | (Inr u, st3) \<Rightarrow> keyword_loop_h st3 self d ks)))"

definition find_keyword_h ::
  "(string \<Rightarrow> string) \<Rightarrow> store \<Rightarrow> addr \<Rightarrow> string \<Rightarrow> ((fault + addr) \<times> store) option" where
  "find_keyword_h lower st self keyword =
     (case collection_dict st self of
        Inl e \<Rightarrow> Some (Inl e, st)
      | Inr bd \<Rightarrow>
          (case alloc st (Str_list
                  (filter (\<lambda>k. str_contains (lower k) (lower keyword)) (map fst bd))) of
             (matches, st1) \<Rightarrow>
               (case get_str_list st1 matches of
                  Inl e \<Rightarrow> Some (Inl e, st1)
                | Inr ks \<Rightarrow>
                    (case alloc st1 (Ref_dict []) of
                       (d, st2) \<Rightarrow>
                         (case keyword_loop_h st2 self d ks of
                            None \<Rightarrow> None
                          | Some (Inl e, st3) \<Rightarrow> Some (Inl e, st3)
                          | Some (Inr u, st3) \<Rightarrow> Some (Inr d, st3))))))"

definition size_h :: "store \<Rightarrow> addr \<Rightarrow> (fault + nat) \<times> store" where
  "size_h st self =
     (case collection_dict st self of
        Inl e \<Rightarrow> (Inl e, st)
      | Inr bd \<Rightarrow> (Inr (length bd), st))"

text \<open>
  \<^verbatim>\<open>add_blueprint\<close> stores the address of the blueprint in the collection's dictionary and
  returns the lines it has printed.
\<close>

definition add_blueprint_h :: "store \<Rightarrow> addr \<Rightarrow> addr \<Rightarrow> (fault + string list) \<times> store" where
  "add_blueprint_h st self blueprint =
     (case get_blueprint st blueprint of
        Inl e \<Rightarrow> (Inl e, st)
      | Inr (n, t, m) \<Rightarrow>
          (case get_blueprints_attr st self of
             Inl e \<Rightarrow> (Inl e, st)
           | Inr d \<Rightarrow>
               (case get_ref_dict st d of
                  Inl e \<Rightarrow> (Inl e, st)
                | Inr bd \<Rightarrow>
                    (Inr (if n \<in> set (map fst bd) then [warning] else []),
                     st[d := Ref_dict (AList.update n blueprint bd)]))))"

text \<open>
  The collection a store holds at \<open>self\<close>: the names of its dictionary, each with the
  name, type and materials of the blueprint kept under it.
\<close>

definition blueprint_at :: "store \<Rightarrow> addr \<Rightarrow> Blueprint option" where
  "blueprint_at st a =
     (case get_blueprint st a of
        Inl e \<Rightarrow> None
      | Inr (n, t, m) \<Rightarrow>
          (case get_int_dict st m of
             Inl e \<Rightarrow> None
           | Inr items \<Rightarrow> Some \<lparr>name = n, type = t, materials = items\<rparr>))"

definition collection_of :: "store \<Rightarrow> addr \<Rightarrow> blueprints option" where
  "collection_of st self =
     (case collection_dict st self of
        Inl e \<Rightarrow> None
      | Inr bd \<Rightarrow> those (map (\<lambda>(k, a). map_option (Pair k) (blueprint_at st a)) bd))"

definition nested_store :: store where
  "nested_store =
     [Blueprints_obj 1, Ref_dict [(''X'', 2), (''Y'', 4)],
      Blueprint_obj ''X'' [] 3, Int_dict [(''Y'', 2)],
      Blueprint_obj ''Y'' [] 5, Int_dict [(''Z'', 3)]]"

text \<open>
  What holds of the store in every round of the loop of \<^verbatim>\<open>find_materials\<close> that was
  started on the store \<open>st0\<close>: that store is kept, the two lists were made after it, they
  are two objects, and they hold \<open>xs\<close> and \<open>tr\<close>.
\<close>

definition loop_inv :: "store \<Rightarrow> addr \<Rightarrow> addr \<Rightarrow> store \<Rightarrow> string list \<Rightarrow> nat list \<Rightarrow> bool" where
  "loop_inv st0 result to_remove st xs tr =
     (prefix st0 st \<and> length st0 \<le> result \<and> length st0 \<le> to_remove \<and> result \<noteq> to_remove \<and>
      read st result = Some (Str_list xs) \<and> read st to_remove = Some (Int_list tr))"

section \<open>Properties of the expansion\<close>

inductive_cases expands_NilE: "expands bps [] n M"
inductive_cases expands_ConsE: "expands bps (x # xs) n M"

lemma expands_append:
  "expands bps xs n M \<Longrightarrow> expands bps ys k K \<Longrightarrow> expands bps (xs @ ys) (n + k) (M + K)"
proof (induction rule: expands.induct)
  case expands_Nil
  then show ?case by simp
next
  case (expands_raw x xs n M)
  then have "expands bps (x # (xs @ ys)) (Suc (n + k)) (add_mset x (M + K))"
    by (intro expands.expands_raw) simp_all
  then show ?case by simp
next
  case (expands_item x b j J xs n M)
  then have "expands bps (x # (xs @ ys)) (Suc (j + (n + k))) (J + (M + K))"
    by (intro expands.expands_item) simp_all
  then show ?case by (simp add: add.assoc)
qed

lemma expands_split:
  "expands bps (xs @ ys) n M \<Longrightarrow>
   \<exists>n1 n2 M1 M2. expands bps xs n1 M1 \<and> expands bps ys n2 M2 \<and> n = n1 + n2 \<and> M = M1 + M2"
proof (induction xs arbitrary: n M)
  case Nil
  then show ?case using expands_Nil by fastforce
next
  case (Cons x xs)
  from Cons.prems have "expands bps (x # (xs @ ys)) n M" by simp
  then consider
      (raw) n' M' where "map_of bps x = None" "expands bps (xs @ ys) n' M'"
        "n = Suc n'" "M = add_mset x M'"
    | (item) b k K n' M' where "map_of bps x = Some b" "expands bps (materials_list b) k K"
        "expands bps (xs @ ys) n' M'" "n = Suc (k + n')" "M = K + M'"
    by (auto elim: expands_ConsE)
  then show ?case
  proof cases
    case raw
    from Cons.IH [OF raw(2)] obtain n1 n2 M1 M2 where
      h: "expands bps xs n1 M1" "expands bps ys n2 M2" "n' = n1 + n2" "M' = M1 + M2" by blast
    have "expands bps (x # xs) (Suc n1) (add_mset x M1)"
      using raw(1) h(1) by (rule expands_raw)
    with h raw show ?thesis
      by (intro exI [of _ "Suc n1"] exI [of _ n2] exI [of _ "add_mset x M1"] exI [of _ M2]) simp
  next
    case item
    from Cons.IH [OF item(3)] obtain n1 n2 M1 M2 where
      h: "expands bps xs n1 M1" "expands bps ys n2 M2" "n' = n1 + n2" "M' = M1 + M2" by blast
    have "expands bps (x # xs) (Suc (k + n1)) (K + M1)"
      using item(1,2) h(1) by (rule expands_item)
    with h item show ?thesis
      by (intro exI [of _ "Suc (k + n1)"] exI [of _ n2] exI [of _ "K + M1"] exI [of _ M2]) simp
  qed
qed

lemma expands_raw_only:
  "expands bps xs n M \<Longrightarrow> m \<in># M \<Longrightarrow> map_of bps m = None"
  by (induction rule: expands.induct) auto

lemma expands_deterministic:
  "expands bps xs n M \<Longrightarrow> expands bps xs n' M' \<Longrightarrow> n' = n \<and> M' = M"
proof (induction arbitrary: n' M' rule: expands.induct)
  case expands_Nil
  then show ?case by (auto elim: expands_NilE)
next
  case (expands_raw x xs n M)
  from expands_raw.prems expands_raw.hyps(1) expands_raw.IH show ?case
    by (auto elim!: expands_ConsE)
next
  case (expands_item x b k K xs n M)
  from expands_item.prems expands_item.hyps(1) expands_item.IH show ?case
    by (elim expands_ConsE) auto
qed


section \<open>The loop computes the expansion\<close>

lemma unmarked_take_Suc:
  assumes "idx < length r"
  shows "unmarked (take (Suc idx) r) tr =
         unmarked (take idx r) tr @ (if idx \<in> set tr then [] else [r ! idx])"
proof -
  have l: "length (take (Suc idx) r) = Suc idx" "length (take idx r) = idx"
    using assms by simp_all
  have "map ((!) (take (Suc idx) r)) (filter (\<lambda>i. i \<notin> set tr) [0..<idx]) =
        map ((!) (take idx r)) (filter (\<lambda>i. i \<notin> set tr) [0..<idx])"
    by (rule map_cong) auto
  then show ?thesis
    unfolding unmarked_def l by simp
qed

lemma unmarked_take_marked:
  assumes "idx < length r"
  shows "unmarked (take (Suc idx) (r @ ys)) (tr @ [idx]) = unmarked (take idx r) tr"
proof -
  have l: "length (take (Suc idx) (r @ ys)) = Suc idx" "length (take idx r) = idx"
    using assms by simp_all
  have "filter (\<lambda>i. i \<notin> set (tr @ [idx])) [0..<idx] = filter (\<lambda>i. i \<notin> set tr) [0..<idx]"
    by (rule filter_cong) auto
  moreover have "map ((!) (take (Suc idx) (r @ ys))) (filter (\<lambda>i. i \<notin> set tr) [0..<idx]) =
        map ((!) (take idx r)) (filter (\<lambda>i. i \<notin> set tr) [0..<idx])"
    using assms by (intro map_cong) (auto simp: nth_append)
  ultimately show ?thesis
    unfolding unmarked_def l by simp
qed

lemma expand_loop_expands:
  "expands bps (drop idx result) n M \<Longrightarrow> idx \<le> length result \<Longrightarrow> set tr \<subseteq> {..<idx} \<Longrightarrow>
   \<exists>result' tr'. expand_loop bps result tr idx = Some (result', tr') \<and>
     mset (unmarked result' tr') = mset (unmarked (take idx result) tr) + M"
proof (induction n arbitrary: result tr idx M rule: less_induct)
  case (less n)
  show ?case
  proof (cases "idx < length result")
    case False
    with less.prems have "idx = length result" by simp
    with less.prems(1) have "M = {#}" by (auto elim: expands_NilE)
    with \<open>idx = length result\<close> show ?thesis
      by (subst expand_loop.simps) simp
  next
    case True
    then have d: "drop idx result = result ! idx # drop (Suc idx) result"
      by (simp add: Cons_nth_drop_Suc)
    let ?x = "result ! idx"
    from less.prems(1) d consider
        (raw) n' M' where "map_of bps ?x = None" "expands bps (drop (Suc idx) result) n' M'"
          "n = Suc n'" "M = add_mset ?x M'"
      | (item) b k K n' M' where "map_of bps ?x = Some b" "expands bps (materials_list b) k K"
          "expands bps (drop (Suc idx) result) n' M'" "n = Suc (k + n')" "M = K + M'"
      by (auto elim: expands_ConsE)
    then show ?thesis
    proof cases
      case raw
      have "n' < n" using raw(3) by simp
      moreover have "Suc idx \<le> length result" using True by simp
      moreover have "set tr \<subseteq> {..<Suc idx}" using less.prems(3) by auto
      ultimately obtain result' tr' where
        r: "expand_loop bps result tr (Suc idx) = Some (result', tr')"
           "mset (unmarked result' tr') = mset (unmarked (take (Suc idx) result) tr) + M'"
        using less.IH [OF _ raw(2)] by blast
      have "idx \<notin> set tr" using less.prems(3) by auto
      then have "unmarked (take (Suc idx) result) tr = unmarked (take idx result) tr @ [?x]"
        using True by (simp add: unmarked_take_Suc)
      with r(2) raw(4) have "mset (unmarked result' tr') = mset (unmarked (take idx result) tr) + M"
        by simp
      moreover have "expand_loop bps result tr idx = Some (result', tr')"
        using True raw(1) r(1) by (subst expand_loop.simps) simp
      ultimately show ?thesis by blast
    next
      case item
      let ?r = "result @ materials_list b"
      let ?t = "tr @ [idx]"
      have "drop (Suc idx) ?r = drop (Suc idx) result @ materials_list b"
        using True by simp
      then have e: "expands bps (drop (Suc idx) ?r) (n' + k) (M' + K)"
        using expands_append [OF item(3) item(2)] by simp
      have "n' + k < n" using item(4) by simp
      moreover have "Suc idx \<le> length ?r" using True by simp
      moreover have "set ?t \<subseteq> {..<Suc idx}" using less.prems(3) by auto
      ultimately obtain result' tr' where
        r: "expand_loop bps ?r ?t (Suc idx) = Some (result', tr')"
           "mset (unmarked result' tr') = mset (unmarked (take (Suc idx) ?r) ?t) + (M' + K)"
        using less.IH [OF _ e] by blast
      have "unmarked (take (Suc idx) ?r) ?t = unmarked (take idx result) tr"
        using True by (rule unmarked_take_marked)
      with r(2) item(5) have "mset (unmarked result' tr') = mset (unmarked (take idx result) tr) + M"
        by simp
      moreover have "expand_loop bps result tr idx = Some (result', tr')"
        using True item(1) r(1) by (subst expand_loop.simps) simp
      ultimately show ?thesis by blast
    qed
  qed
qed

lemma expand_loop_returns_expands:
  assumes "expand_loop bps result tr idx = Some y"
  shows "idx \<le> length result \<longrightarrow> (\<exists>n M. expands bps (drop idx result) n M)"
proof (rule expand_loop.raw_induct
    [where P = "\<lambda>bps result tr idx y. idx \<le> length result \<longrightarrow>
       (\<exists>n M. expands bps (drop idx result) n M)"])
  show "expand_loop bps result tr idx = Some y" by (rule assms)
next
  fix loop :: "blueprints \<Rightarrow> string list \<Rightarrow> nat list \<Rightarrow> nat \<Rightarrow> (string list \<times> nat list) option"
    and bps result tr idx y
  assume IH: "\<And>a b c d y. loop a b c d = Some y \<Longrightarrow>
      d \<le> length b \<longrightarrow> (\<exists>n M. expands a (drop d b) n M)"
    and eq: "(if idx < length result then
        (case map_of bps (result ! idx) of
           None \<Rightarrow> loop bps result tr (Suc idx)
         | Some b \<Rightarrow> loop bps (result @ materials_list b) (tr @ [idx]) (Suc idx))
      else Some (result, tr)) = Some y"
  show "idx \<le> length result \<longrightarrow> (\<exists>n M. expands bps (drop idx result) n M)"
  proof (cases "idx < length result")
    case False
    then show ?thesis using expands_Nil by fastforce
  next
    case True
    then have d: "drop idx result = result ! idx # drop (Suc idx) result"
      by (simp add: Cons_nth_drop_Suc)
    show ?thesis
    proof (cases "map_of bps (result ! idx)")
      case None
      with eq True have "loop bps result tr (Suc idx) = Some y" by simp
      from IH [OF this] True obtain n M where "expands bps (drop (Suc idx) result) n M"
        by auto
      with None d show ?thesis by (metis expands_raw)
    next
      case (Some b)
      with eq True have "loop bps (result @ materials_list b) (tr @ [idx]) (Suc idx) = Some y"
        by simp
      from IH [OF this] True obtain n M
        where "expands bps (drop (Suc idx) result @ materials_list b) n M"
        by auto
      then obtain n1 n2 M1 M2 where "expands bps (drop (Suc idx) result) n1 M1"
        "expands bps (materials_list b) n2 M2"
        using expands_split by blast
      with Some d show ?thesis by (metis expands_item)
    qed
  qed
qed

section \<open>The weighted resolution computes the expansion\<close>

lemma pack_list_table: "pack_list xs = table_of (mset xs)"
  by (rule ext) (simp add: pack_list_def table_of_def map_of_map_restrict restrict_map_def count_mset)

lemma table_of_bump:
  assumes "0 < q"
  shows "(table_of A)(x \<mapsto> (case table_of A x of None \<Rightarrow> 0 | Some c \<Rightarrow> c) + q) =
         table_of (A + replicate_mset (nat q) x)"
  using assms by (auto simp: table_of_def fun_eq_iff not_in_iff)

lemma expands_replicate:
  "expands bps (replicate j m) n1 M1 \<Longrightarrow> expands bps [m] n0 M0 \<Longrightarrow>
   M1 = repeat_mset j M0 \<and> n1 = j * n0"
proof (induction j arbitrary: n1 M1)
  case 0
  then show ?case by (auto elim: expands_NilE)
next
  case (Suc j)
  from Suc.prems(1) have "expands bps ([m] @ replicate j m) n1 M1" by simp
  then obtain a b A B where s: "expands bps [m] a A" "expands bps (replicate j m) b B"
    "n1 = a + b" "M1 = A + B"
    using expands_split by blast
  from expands_deterministic [OF Suc.prems(2) s(1)] have "a = n0" "A = M0" by simp_all
  moreover from Suc.IH [OF s(2) Suc.prems(2)] have "B = repeat_mset j M0" "b = j * n0"
    by simp_all
  ultimately show ?case using s(3,4) by simp
qed

lemma resolve_weighted_single:
  assumes pairs: "\<And>k ps K fuel q A. k < n \<Longrightarrow> \<forall>(m, q') \<in> set ps. 1 \<le> q' \<Longrightarrow>
      expands bps (concat (map (\<lambda>(mat, qty). replicate (nat qty) mat) ps)) k K \<Longrightarrow>
      k \<le> fuel \<Longrightarrow> 0 < q \<Longrightarrow>
      resolve_each fuel bps ps q (table_of A) = Some (table_of (A + repeat_mset (nat q) K))"
    and pos: "quantities_positive bps"
    and ex: "expands bps [x] n M"
    and fuel: "n \<le> fuel" and q: "0 < q"
  shows "resolve_weighted fuel bps x q (table_of A) = Some (table_of (A + repeat_mset (nat q) M))"
proof -
  from ex consider
      (raw) "map_of bps x = None" "n = Suc 0" "M = {#x#}"
    | (item) b k K where "map_of bps x = Some b" "expands bps (materials_list b) k K"
        "n = Suc k" "M = K"
    by (auto elim!: expands_ConsE expands_NilE)
  then show ?thesis
  proof cases
    case raw
    from raw(2) fuel obtain f where f: "fuel = Suc f" by (cases fuel) auto
    show ?thesis
      unfolding f using raw(1,3) table_of_bump [OF q, of A x] by simp
  next
    case item
    from item(3) fuel obtain f where f: "fuel = Suc f" "k \<le> f" by (cases fuel) auto
    from item(1) have "(x, b) \<in> set bps" by (rule map_of_SomeD)
    with pos have w: "\<forall>(m, q') \<in> set (materials b). 1 \<le> q'"
      by (auto simp: quantities_positive_def)
    have "k < n" using item(3) by simp
    from pairs [OF this w item(2) [unfolded materials_list_def] f(2) q, of A]
    show ?thesis
      unfolding f using item(1,4) by simp
  qed
qed

lemma resolve_each_pairs:
  assumes single: "\<And>x k K fuel q A. k \<le> n \<Longrightarrow> expands bps [x] k K \<Longrightarrow>
      k \<le> fuel \<Longrightarrow> 0 < q \<Longrightarrow>
      resolve_weighted fuel bps x q (table_of A) = Some (table_of (A + repeat_mset (nat q) K))"
  shows "\<forall>(m, q') \<in> set ps. 1 \<le> q' \<Longrightarrow>
      expands bps (concat (map (\<lambda>(mat, qty). replicate (nat qty) mat) ps)) k K \<Longrightarrow>
      k \<le> n \<Longrightarrow> n \<le> fuel \<Longrightarrow> 0 < q \<Longrightarrow>
      resolve_each fuel bps ps q (table_of A) = Some (table_of (A + repeat_mset (nat q) K))"
proof (induction ps arbitrary: k K A)
  case Nil
  then show ?case by (auto elim: expands_NilE)
next
  case (Cons p ps)
  obtain m q' where p: "p = (m, q')" by (cases p)
  let ?flat = "\<lambda>ps. concat (map (\<lambda>(mat, qty). replicate (nat qty) mat) ps)"
  from Cons.prems(1) p have q': "1 \<le> q'" and rest: "\<forall>(m, q') \<in> set ps. 1 \<le> q'" by auto
  from Cons.prems(2) p have "expands bps (replicate (nat q') m @ ?flat ps) k K" by simp
  then obtain n1 n2 M1 M2 where s: "expands bps (replicate (nat q') m) n1 M1"
    "expands bps (?flat ps) n2 M2" "k = n1 + n2" "K = M1 + M2"
    using expands_split by blast
  from q' obtain j where j: "nat q' = Suc j" by (cases "nat q'") auto
  with s(1) have "expands bps ([m] @ replicate j m) n1 M1" by simp
  then obtain n0 M0 c C where s0: "expands bps [m] n0 M0" "n1 = n0 + c"
    using expands_split by blast
  from expands_replicate [OF s(1) s0(1)] have M1: "M1 = repeat_mset (nat q') M0" by simp
  have "n0 \<le> n" using s0(2) s(3) Cons.prems(3) by simp
  moreover have "n0 \<le> fuel" using s0(2) s(3) Cons.prems(3,4) by simp
  moreover have "0 < q * q'" using Cons.prems(5) q' by simp
  ultimately have
    1: "resolve_weighted fuel bps m (q * q') (table_of A) =
        Some (table_of (A + repeat_mset (nat (q * q')) M0))"
    using single s0(1) by blast
  have "n2 \<le> n" using s(3) Cons.prems(3) by simp
  from Cons.IH [OF rest s(2) this Cons.prems(4,5)]
  have 2: "resolve_each fuel bps ps q (table_of (A + repeat_mset (nat (q * q')) M0)) =
        Some (table_of (A + repeat_mset (nat (q * q')) M0 + repeat_mset (nat q) M2))" .
  have "nat (q * q') = nat q * nat q'"
    using Cons.prems(5) by (simp add: nat_mult_distrib)
  then have "A + repeat_mset (nat (q * q')) M0 + repeat_mset (nat q) M2 =
      A + repeat_mset (nat q) K"
    using s(4) M1 by (simp add: repeat_mset_distrib2 repeat_mset_right)
  with 1 2 show ?case unfolding p by simp
qed

lemma resolve_expands:
  assumes pos: "quantities_positive bps"
  shows "(\<forall>x M fuel q A. expands bps [x] n M \<longrightarrow> n \<le> fuel \<longrightarrow> 0 < q \<longrightarrow>
      resolve_weighted fuel bps x q (table_of A) =
        Some (table_of (A + repeat_mset (nat q) M))) \<and>
    (\<forall>ps M fuel q A. (\<forall>(m, q') \<in> set ps. 1 \<le> q') \<longrightarrow>
      expands bps (concat (map (\<lambda>(mat, qty). replicate (nat qty) mat) ps)) n M \<longrightarrow>
      n \<le> fuel \<longrightarrow> 0 < q \<longrightarrow>
      resolve_each fuel bps ps q (table_of A) = Some (table_of (A + repeat_mset (nat q) M)))"
proof (induction n rule: less_induct)
  case (less n)
  have single: "resolve_weighted fuel bps x q (table_of A) =
        Some (table_of (A + repeat_mset (nat q) K))"
    if "k \<le> n" "expands bps [x] k K" "k \<le> fuel" "0 < q" for x k K fuel q A
  proof (cases "k < n")
    case True
    with less.IH that show ?thesis by blast
  next
    case False
    with that(1) have "k = n" by simp
    show ?thesis
    proof (rule resolve_weighted_single [OF _ pos that(2,3,4)])
      fix j ps J fuel q A
      assume "j < k" "\<forall>(m, q') \<in> set ps. 1 \<le> q'"
        "expands bps (concat (map (\<lambda>(mat, qty). replicate (nat qty) mat) ps)) j J"
        "j \<le> fuel" "0 < (q::int)"
      with less.IH \<open>k = n\<close>
      show "resolve_each fuel bps ps q (table_of A) =
          Some (table_of (A + repeat_mset (nat q) J))"
        by blast
    qed
  qed
  show ?case
  proof (intro conjI allI impI)
    fix x M fuel q A
    assume "expands bps [x] n M" "n \<le> fuel" "0 < (q::int)"
    then show "resolve_weighted fuel bps x q (table_of A) =
        Some (table_of (A + repeat_mset (nat q) M))"
      using single [of n x M fuel q A] by simp
  next
    fix ps M fuel q A
    assume "\<forall>(m, q') \<in> set ps. 1 \<le> q'"
      "expands bps (concat (map (\<lambda>(mat, qty). replicate (nat qty) mat) ps)) n M"
      "n \<le> fuel" "0 < (q::int)"
    then show "resolve_each fuel bps ps q (table_of A) =
        Some (table_of (A + repeat_mset (nat q) M))"
      using resolve_each_pairs [of n bps ps n M fuel q A, OF single] by simp
  qed
qed

section \<open>Acyclic collections\<close>

lemma set_materials_list:
  "set (materials_list b) = {m. \<exists>q. (m, q) \<in> set (materials b) \<and> 1 \<le> q}"
  by (auto simp: materials_list_def) 

lemma finite_ingredient_of: "finite (ingredient_of bps)"
proof -
  have "ingredient_of bps \<subseteq> (\<Union>(k, b) \<in> set bps. set (materials_list b)) \<times> fst ` set bps"
    by (auto simp: ingredient_of_def dest!: map_of_SomeD) force
  moreover have "finite ((\<Union>(k, b) \<in> set bps. set (materials_list b)) \<times> fst ` set bps)"
    by auto
  ultimately show ?thesis by (rule finite_subset)
qed

lemma expands_all:
  assumes "\<forall>x \<in> set xs. \<exists>n M. expands bps [x] n M"
  shows "\<exists>n M. expands bps xs n M"
  using assms
proof (induction xs)
  case Nil
  show ?case using expands_Nil by blast
next
  case (Cons x xs)
  then obtain n M k K where "expands bps [x] n M" "expands bps xs k K" by auto
  from expands_append [OF this] show ?case by auto
qed

lemma expands_total:
  assumes "acyclic (ingredient_of bps)"
  shows "\<exists>n M. expands bps xs n M"
proof -
  from finite_ingredient_of assms have "wf (ingredient_of bps)"
    by (rule finite_acyclic_wf)
  then have "\<exists>n M. expands bps [x] n M" for x
  proof (induction x rule: wf_induct_rule)
    case (less x)
    show ?case
    proof (cases "map_of bps x")
      case None
      from expands_raw [OF None expands_Nil] show ?thesis by blast
    next
      case (Some b)
      then have "\<forall>y \<in> set (materials_list b). \<exists>n M. expands bps [y] n M"
        using less.IH by (auto simp: ingredient_of_def)
      then obtain k K where "expands bps (materials_list b) k K"
        using expands_all by blast
      from expands_item [OF Some this expands_Nil] show ?thesis by blast
    qed
  qed
  then show ?thesis by (intro expands_all) simp
qed

lemma unmarked_Nil [simp]: "unmarked result [] = result"
  by (simp add: unmarked_def map_nth)

lemma find_materials_expands:
  assumes "map_of bps item = Some b" "expands bps (materials_list b) n M"
  shows "\<exists>found. find_materials bps item = Some (Inr found) \<and> mset found = M"
proof -
  have "expands bps (drop 0 (materials_list b)) n M" using assms(2) by simp
  from expand_loop_expands [OF this, of "[]"] obtain result' tr' where
    "expand_loop bps (materials_list b) [] 0 = Some (result', tr')"
    "mset (unmarked result' tr') = M"
    by (auto simp: unmarked_def)
  with assms(1) show ?thesis by (simp add: find_materials_def)
qed

lemma table_of_empty [simp]: "table_of {#} = Map.empty"
  by (simp add: table_of_def)

lemma resolve_each_expands:
  assumes "quantities_positive bps" and "\<forall>(m, q') \<in> set ps. 1 \<le> q'"
    and "expands bps (concat (map (\<lambda>(mat, qty). replicate (nat qty) mat) ps)) n M"
    and "n \<le> fuel" and "0 < q"
  shows "resolve_each fuel bps ps q (table_of A) = Some (table_of (A + repeat_mset (nat q) M))"
proof -
  from resolve_expands [OF assms(1), of n]
  have "(\<forall>(m, q') \<in> set ps. 1 \<le> q') \<longrightarrow>
      expands bps (concat (map (\<lambda>(mat, qty). replicate (nat qty) mat) ps)) n M \<longrightarrow>
      n \<le> fuel \<longrightarrow> 0 < q \<longrightarrow>
      resolve_each fuel bps ps q (table_of A) = Some (table_of (A + repeat_mset (nat q) M))"
    by blast
  with assms(2-) show ?thesis by simp
qed

section \<open>Cyclic collections\<close>

text \<open>A name on a cycle of the ingredient graph keeps the loop going.\<close>

lemma on_cycle_ingredient:
  assumes "(x, x) \<in> (ingredient_of bps)\<^sup>+"
  shows "\<exists>b y. map_of bps x = Some b \<and> y \<in> set (materials_list b) \<and>
           (y, y) \<in> (ingredient_of bps)\<^sup>+"
proof -
  from tranclD2 [OF assms] obtain y where
    y: "(x, y) \<in> (ingredient_of bps)\<^sup>*" "(y, x) \<in> ingredient_of bps" by blast
  from y(2) obtain b where "map_of bps x = Some b" "y \<in> set (materials_list b)"
    by (auto simp: ingredient_of_def)
  moreover from y have "(y, y) \<in> (ingredient_of bps)\<^sup>+" by simp
  ultimately show ?thesis by blast
qed

lemma expand_loop_cycle:
  assumes "expand_loop bps result tr idx = Some y"
  shows "\<not> (\<exists>j \<ge> idx. j < length result \<and> (result ! j, result ! j) \<in> (ingredient_of bps)\<^sup>+)"
proof (rule expand_loop.raw_induct
    [where P = "\<lambda>bps result tr idx y.
       \<not> (\<exists>j \<ge> idx. j < length result \<and> (result ! j, result ! j) \<in> (ingredient_of bps)\<^sup>+)"])
  show "expand_loop bps result tr idx = Some y" by (rule assms)
next
  fix loop :: "blueprints \<Rightarrow> string list \<Rightarrow> nat list \<Rightarrow> nat \<Rightarrow> (string list \<times> nat list) option"
    and bps result tr idx y
  assume IH: "\<And>a b c d y. loop a b c d = Some y \<Longrightarrow>
      \<not> (\<exists>j \<ge> d. j < length b \<and> (b ! j, b ! j) \<in> (ingredient_of a)\<^sup>+)"
    and eq: "(if idx < length result then
        (case map_of bps (result ! idx) of
           None \<Rightarrow> loop bps result tr (Suc idx)
         | Some b \<Rightarrow> loop bps (result @ materials_list b) (tr @ [idx]) (Suc idx))
      else Some (result, tr)) = Some y"
  show "\<not> (\<exists>j \<ge> idx. j < length result \<and> (result ! j, result ! j) \<in> (ingredient_of bps)\<^sup>+)"
  proof
    assume "\<exists>j \<ge> idx. j < length result \<and> (result ! j, result ! j) \<in> (ingredient_of bps)\<^sup>+"
    then obtain j where j: "idx \<le> j" "j < length result"
      "(result ! j, result ! j) \<in> (ingredient_of bps)\<^sup>+" by blast
    then have lt: "idx < length result" by simp
    show False
    proof (cases "map_of bps (result ! idx)")
      case None
      with eq lt have "loop bps result tr (Suc idx) = Some y" by simp
      from IH [OF this] j(2,3) have "\<not> Suc idx \<le> j" by blast
      with j(1) have "j = idx" by simp
      with on_cycle_ingredient [OF j(3)] None show False by simp
    next
      case (Some b)
      let ?r = "result @ materials_list b"
      from Some eq lt have "loop bps ?r (tr @ [idx]) (Suc idx) = Some y" by simp
      from IH [OF this]
      have no: "\<And>i. Suc idx \<le> i \<Longrightarrow> i < length ?r \<Longrightarrow>
          (?r ! i, ?r ! i) \<notin> (ingredient_of bps)\<^sup>+" by blast
      show False
      proof (cases "j = idx")
        case False
        with j(1) have "Suc idx \<le> j" by simp
        moreover have "j < length ?r" using j(2) by simp
        moreover have "?r ! j = result ! j" using j(2) by (simp add: nth_append)
        ultimately show False using no j(3) by metis
      next
        case True
        with on_cycle_ingredient [OF j(3)] Some obtain z where
          z: "z \<in> set (materials_list b)" "(z, z) \<in> (ingredient_of bps)\<^sup>+" by auto
        from z(1) obtain i where i: "i < length (materials_list b)" "materials_list b ! i = z"
          by (auto simp: in_set_conv_nth)
        have "Suc idx \<le> length result + i" using lt by simp
        moreover have "length result + i < length ?r" using i(1) by simp
        moreover have "?r ! (length result + i) = z" using i(2) by (simp add: nth_append)
        ultimately show False using no z(2) by metis
      qed
    qed
  qed
qed

lemma find_materials_on_cycle:
  assumes "(item, item) \<in> (ingredient_of bps)\<^sup>+"
  shows "find_materials bps item = None"
proof -
  from on_cycle_ingredient [OF assms] obtain b y where
    b: "map_of bps item = Some b" and y: "y \<in> set (materials_list b)"
      "(y, y) \<in> (ingredient_of bps)\<^sup>+" by blast
  from y(1) obtain i where i: "i < length (materials_list b)" "materials_list b ! i = y"
    by (auto simp: in_set_conv_nth)
  have "expand_loop bps (materials_list b) [] 0 = None"
  proof (cases "expand_loop bps (materials_list b) [] 0")
    case (Some r)
    from expand_loop_cycle [OF this] i y(2) show ?thesis by auto
  qed simp
  with b show ?thesis by (simp add: find_materials_def)
qed

section \<open>What resolution returns\<close>

text \<open>When nothing pending is a blueprint the loop only walks to the end.\<close>

lemma expand_loop_raw:
  "\<forall>i. idx \<le> i \<and> i < length result \<longrightarrow> map_of bps (result ! i) = None \<Longrightarrow>
   expand_loop bps result tr idx = Some (result, tr)"
proof (induction "length result - idx" arbitrary: idx)
  case 0
  then show ?case by (subst expand_loop.simps) simp
next
  case (Suc d)
  then have "idx < length result" by simp
  moreover from Suc have "expand_loop bps result tr (Suc idx) = Some (result, tr)" by simp
  moreover from Suc.prems \<open>idx < length result\<close> have "map_of bps (result ! idx) = None" by simp
  ultimately show ?case by (subst expand_loop.simps) simp
qed

lemma find_materials_raw_only:
  assumes "find_materials bps item = Some (Inr found)" and "x \<in> set found"
  shows "map_of bps x = None"
proof -
  from assms(1) obtain b r t where b: "map_of bps item = Some b"
    and l: "expand_loop bps (materials_list b) [] 0 = Some (r, t)"
    and f: "found = unmarked r t"
    by (auto simp: find_materials_def split: option.splits)
  from expand_loop_returns_expands [OF l] obtain n M where
    e: "expands bps (materials_list b) n M" by auto
  from find_materials_expands [OF b e] assms(1) have "mset found = M" by simp
  with assms(2) have "x \<in># M" by (metis set_mset_mset)
  with e show ?thesis by (rule expands_raw_only)
qed

lemma find_materials_no_error:
  "map_of bps item = Some b \<Longrightarrow> find_materials bps item \<noteq> Some (Inl e)"
  by (simp add: find_materials_def split: option.splits)

lemma find_materials_acyclic:
  assumes "acyclic (ingredient_of bps)" "map_of bps item = Some b"
  shows "\<exists>found. find_materials bps item = Some (Inr found)"
  using expands_total [OF assms(1)] find_materials_expands [OF assms(2)] by blast

lemma expands_raw_list:
  "\<forall>x \<in> set xs. map_of bps x = None \<Longrightarrow> expands bps xs (length xs) (mset xs)"
  by (induction xs) (auto intro: expands.intros)

lemma expands_replicate_intro:
  "expands bps [m] n M \<Longrightarrow> expands bps (replicate j m) (j * n) (repeat_mset j M)"
proof (induction j)
  case 0
  show ?case by (simp add: expands_Nil)
next
  case (Suc j)
  from expands_append [OF Suc.prems Suc.IH [OF Suc.prems]] show ?case by simp
qed

section \<open>Insertion and keyword search\<close>

lemma length_AList_update:
  "length (AList.update k v al) = (if k \<in> fst ` set al then length al else Suc (length al))"
  by (induction al) auto

lemma distinct_add_blueprint:
  "distinct (map fst bps) \<Longrightarrow> distinct (map fst (snd (add_blueprint bps b)))"
  by (simp add: add_blueprint_def distinct_update)


lemma blueprint_matches_empty:
  assumes "lower [] = []"
  shows "blueprint_matches lower bps [] = map fst bps"
proof -
  have "str_contains s []" for s by (cases s) simp_all
  with assms show ?thesis by (simp add: blueprint_matches_def)
qed

lemma resolve_matches_keys:
  "resolve_matches bps ks = Some (Inr d) \<Longrightarrow> map fst d = ks"
  by (induction ks arbitrary: d) (auto split: option.splits sum.splits)

lemma resolve_matches_values:
  "resolve_matches bps ks = Some (Inr d) \<Longrightarrow> (k, v) \<in> set d \<Longrightarrow>
   \<exists>found. find_materials bps k = Some (Inr found) \<and> v = pack_list found"
  by (induction ks arbitrary: d) (auto split: option.splits sum.splits)

lemma resolve_matches_no_error:
  "set ks \<subseteq> fst ` set bps \<Longrightarrow> resolve_matches bps ks \<noteq> Some (Inl e)"
proof (induction ks)
  case Nil
  show ?case by simp
next
  case (Cons k ks)
  then obtain b where "map_of bps k = Some b"
    by (metis insert_subset list.simps(15) map_of_eq_None_iff not_Some_eq)
  from find_materials_no_error [OF this] Cons show ?case
    by (auto split: option.splits sum.splits)
qed

lemma resolve_matches_acyclic:
  assumes "acyclic (ingredient_of bps)"
  shows "set ks \<subseteq> fst ` set bps \<Longrightarrow> \<exists>d. resolve_matches bps ks = Some (Inr d)"
proof (induction ks)
  case Nil
  show ?case by simp
next
  case (Cons k ks)
  then obtain b where "map_of bps k = Some b"
    by (metis insert_subset list.simps(15) map_of_eq_None_iff not_Some_eq)
  from find_materials_acyclic [OF assms this] Cons show ?case
    by auto
qed

lemma blueprint_matches_keys: "set (blueprint_matches lower bps keyword) \<subseteq> fst ` set bps"
  by (auto simp: blueprint_matches_def)

section \<open>Facts about the example collections\<close>

lemma ingredient_of_nested: "ingredient_of nested_db = {(''Y'', ''X''), (''Z'', ''Y'')}"
  by (auto simp: ingredient_of_def nested_db_def bp_def materials_list_def split: if_splits)

lemma acyclic_nested: "acyclic (ingredient_of nested_db)"
  unfolding ingredient_of_nested
  by (rule acyclicI_order [where f = "\<lambda>s. if s = ''X'' then 0 else if s = ''Y'' then 1 else (2::nat)"])
     auto

lemma ingredient_of_iron:
  "ingredient_of iron_db = {(''Scrap'', ''Iron Sword''), (''Scrap'', ''Bronze Axe'')}"
  by (auto simp: ingredient_of_def iron_db_def bp_def materials_list_def split: if_splits)

lemma acyclic_iron: "acyclic (ingredient_of iron_db)"
  unfolding ingredient_of_iron
  by (rule acyclicI_order [where f = "\<lambda>s. if s = ''Scrap'' then 1 else (0::nat)"]) auto

lemma cycle_cyclic: "(''P'', ''P'') \<in> (ingredient_of cyclic_db)\<^sup>+"
proof -
  have "(''P'', ''Q'') \<in> ingredient_of cyclic_db" "(''Q'', ''P'') \<in> ingredient_of cyclic_db"
    by (simp_all add: ingredient_of_def cyclic_db_def bp_def materials_list_def)
  then show ?thesis by (rule trancl_into_trancl2 [OF _ r_into_trancl])
qed

lemma count_list_replicate: "count_list (replicate n x) y = (if x = y then n else 0)"
  by (induction n) auto

lemma count_flat_absent:
  "m \<notin> fst ` set ps \<Longrightarrow>
   count_list (concat (map (\<lambda>(mat, qty). replicate (nat qty) mat) ps)) m = 0"
  by (force simp: count_list_0_iff)

lemma count_flat:
  "distinct (map fst ps) \<Longrightarrow> (m, q) \<in> set ps \<Longrightarrow>
   count_list (concat (map (\<lambda>(mat, qty). replicate (nat qty) mat) ps)) m = nat q"
proof (induction ps)
  case Nil
  then show ?case by simp
next
  case (Cons p ps)
  obtain m' q' where p: "p = (m', q')" by (cases p)
  show ?case
  proof (cases "(m, q) = p")
    case True
    with Cons.prems p have "m \<notin> fst ` set ps" by auto
    then have "count_list (concat (map (\<lambda>(mat, qty). replicate (nat qty) mat) ps)) m = 0"
      by (rule count_flat_absent)
    with True p show ?thesis by (simp add: count_list_replicate)
  next
    case False
    with Cons.prems have in_ps: "(m, q) \<in> set ps" by auto
    with Cons.prems p have "m' \<noteq> m" by force
    with Cons.IH in_ps Cons.prems(1) p show ?thesis
      by (simp add: count_list_replicate)
  qed
qed

lemma cycle_cyclic_Q: "(''Q'', ''Q'') \<in> (ingredient_of cyclic_db)\<^sup>+"
proof -
  have "(''Q'', ''P'') \<in> ingredient_of cyclic_db" "(''P'', ''Q'') \<in> ingredient_of cyclic_db"
    by (simp_all add: ingredient_of_def cyclic_db_def bp_def materials_list_def)
  then show ?thesis by (rule trancl_into_trancl2 [OF _ r_into_trancl])
qed

lemma nested_X: "find_materials nested_db ''X'' = Some (Inr (replicate 6 ''Z''))"
  by code_simp


lemma iron_sword: "find_materials iron_db ''Iron Sword'' = Some (Inr [''Scrap'', ''Scrap''])"
  by code_simp

lemma bronze_axe: "find_materials iron_db ''Bronze Axe'' = Some (Inr [''Scrap''])"
  by code_simp

lemma quantities_nested: "quantities_positive nested_db"
  by (simp add: quantities_positive_def nested_db_def bp_def)





section \<open>What the methods leave untouched in the store\<close>

text \<open>
  A store is kept by a later one when it is a prefix of it: every object it holds is
  still there, at its address and unchanged.
\<close>

lemma keeps_length: "prefix st0 st \<Longrightarrow> length st0 \<le> length st"
  by (rule prefix_length_le)

lemma keeps_alloc: "prefix st0 st \<Longrightarrow> prefix st0 (snd (alloc st ob))"
  by (auto simp: alloc_def prefix_def)

lemma keeps_update:
  assumes "prefix st0 st" and "length st0 \<le> a"
  shows "prefix st0 (st[a := ob])"
proof -
  from assms(1) obtain rest where "st = st0 @ rest" by (auto simp: prefix_def)
  with assms(2) have "st[a := ob] = st0 @ rest[a - length st0 := ob]"
    by (simp add: list_update_append)
  then show ?thesis by (simp add: prefix_def)
qed

lemma keeps_read:
  assumes "prefix st st'" and "read st a = Some ob"
  shows "read st' a = Some ob"
proof -
  from assms(1) obtain rest where r: "st' = st @ rest" by (auto simp: prefix_def)
  from assms(2) have "a < length st" "st ! a = ob"
    by (simp_all add: read_def split: if_splits)
  with r show ?thesis by (simp add: read_def nth_append)
qed

lemma materials_list_h_keeps:
  assumes "materials_list_h st b = (r, st')" and "prefix st0 st"
  shows "prefix st0 st' \<and> (\<forall>a. r = Inr a \<longrightarrow> length st0 \<le> a)"
proof (cases "get_blueprint st b")
  case (Inl e)
  with assms show ?thesis by (auto simp: materials_list_h_def)
next
  case (Inr t)
  obtain n ty m where t: "t = (n, ty, m)" by (cases t)
  show ?thesis
  proof (cases "get_int_dict st m")
    case (Inl e)
    with assms Inr t show ?thesis by (auto simp: materials_list_h_def)
  next
    case items: (Inr items)
    with assms(1) Inr t obtain ob where "r = Inr (length st)" "st' = st @ [ob]"
      by (auto simp: materials_list_h_def alloc_def)
    with keeps_length [OF assms(2)] keeps_alloc [OF assms(2), of ob] show ?thesis
      by (simp add: alloc_def)
  qed
qed

lemma pack_list_h_keeps:
  assumes "pack_list_h st a = (r, st')" and "prefix st0 st"
  shows "prefix st0 st'"
proof (cases "get_str_list st a")
  case (Inl e)
  with assms show ?thesis by (simp add: pack_list_h_def)
next
  case (Inr xs)
  with assms(1) obtain ob where "st' = st @ [ob]"
    by (auto simp: pack_list_h_def alloc_def)
  with keeps_alloc [OF assms(2), of ob] show ?thesis by (simp add: alloc_def)
qed

lemma extend_keeps:
  assumes "extend st a other = (r, st')" and "prefix st0 st" and "length st0 \<le> a"
  shows "prefix st0 st'"
proof (cases "get_str_list st a")
  case (Inl e)
  with assms show ?thesis by (simp add: extend_def)
next
  case xs: (Inr xs)
  show ?thesis
  proof (cases "get_str_list st other")
    case (Inl e)
    with assms xs show ?thesis by (simp add: extend_def)
  next
    case (Inr ys)
    with assms(1) xs have "st' = st[a := Str_list (xs @ ys)]" by (simp add: extend_def)
    with keeps_update [OF assms(2,3)] show ?thesis by simp
  qed
qed

lemma append_idx_keeps:
  assumes "append_idx st a i = (r, st')" and "prefix st0 st" and "length st0 \<le> a"
  shows "prefix st0 st'"
proof (cases "get_int_list st a")
  case (Inl e)
  with assms show ?thesis by (simp add: append_idx_def)
next
  case (Inr xs)
  with assms(1) have "st' = st[a := Int_list (xs @ [i])]" by (simp add: append_idx_def)
  with keeps_update [OF assms(2,3)] show ?thesis by simp
qed

lemma store_item_keeps:
  assumes "store_item st d k v = (r, st')" and "prefix st0 st" and "length st0 \<le> d"
  shows "prefix st0 st'"
proof (cases "get_ref_dict st d")
  case (Inl e)
  with assms show ?thesis by (simp add: store_item_def)
next
  case (Inr items)
  with assms(1) have "st' = st[d := Ref_dict (AList.update k v items)]"
    by (simp add: store_item_def)
  with keeps_update [OF assms(2,3)] show ?thesis by simp
qed

lemma expand_loop_h_keeps:
  assumes "expand_loop_h st self result to_remove idx = Some y"
  shows "prefix st0 st \<longrightarrow> length st0 \<le> result \<longrightarrow> length st0 \<le> to_remove \<longrightarrow> prefix st0 (snd y)"
proof (rule expand_loop_h.raw_induct
    [where P = "\<lambda>st self result to_remove idx y.
       prefix st0 st \<longrightarrow> length st0 \<le> result \<longrightarrow> length st0 \<le> to_remove \<longrightarrow> prefix st0 (snd y)"])
  show "expand_loop_h st self result to_remove idx = Some y" by (rule assms)
next
  fix loop :: "store \<Rightarrow> addr \<Rightarrow> addr \<Rightarrow> addr \<Rightarrow> nat \<Rightarrow> ((fault + unit) \<times> store) option"
    and st self result to_remove idx y
  assume IH: "\<And>st self result to_remove idx y. loop st self result to_remove idx = Some y \<Longrightarrow>
      prefix st0 st \<longrightarrow> length st0 \<le> result \<longrightarrow> length st0 \<le> to_remove \<longrightarrow> prefix st0 (snd y)"
    and eq: "(case get_str_list st result of
        Inl e \<Rightarrow> Some (Inl e, st)
      | Inr xs \<Rightarrow>
          if idx < length xs then
            (case collection_dict st self of
               Inl e \<Rightarrow> Some (Inl e, st)
             | Inr bd \<Rightarrow>
                 (case map_of bd (xs ! idx) of
                    None \<Rightarrow> loop st self result to_remove (Suc idx)
                  | Some b \<Rightarrow>
                      (case materials_list_h st b of
                         (Inl e, st1) \<Rightarrow> Some (Inl e, st1)
                       | (Inr added, st1) \<Rightarrow>
                           (case extend st1 result added of
                              (Inl e, st2) \<Rightarrow> Some (Inl e, st2)
                            | (Inr u, st2) \<Rightarrow>
                                (case append_idx st2 to_remove idx of
                                   (Inl e, st3) \<Rightarrow> Some (Inl e, st3)
                                 | (Inr v, st3) \<Rightarrow>
                                     loop st3 self result to_remove (Suc idx))))))
          else Some (Inr (), st)) = Some y"
  show "prefix st0 st \<longrightarrow> length st0 \<le> result \<longrightarrow> length st0 \<le> to_remove \<longrightarrow> prefix st0 (snd y)"
  proof (intro impI)
    assume k: "prefix st0 st" and fr: "length st0 \<le> result" "length st0 \<le> to_remove"
    show "prefix st0 (snd y)"
    proof (cases "get_str_list st result")
      case (Inl e)
      with eq k show ?thesis by auto
    next
      case (Inr xs)
      show ?thesis
      proof (cases "idx < length xs")
        case False
        with eq Inr k show ?thesis by auto
      next
        case True
        show ?thesis
        proof (cases "collection_dict st self")
          case (Inl e)
          with eq Inr True k show ?thesis by auto
        next
          case bd: (Inr bd)
          show ?thesis
          proof (cases "map_of bd (xs ! idx)")
            case None
            with eq Inr True bd have "loop st self result to_remove (Suc idx) = Some y" by simp
            from IH [OF this] k fr show ?thesis by blast
          next
            case (Some b)
            obtain r1 st1 where m: "materials_list_h st b = (r1, st1)" by (cases "materials_list_h st b")
            from materials_list_h_keeps [OF m k] have k1: "prefix st0 st1" by blast
            show ?thesis
            proof (cases r1)
              case (Inl e)
              with eq Inr True bd Some m k1 show ?thesis by auto
            next
              case added: (Inr added)
              obtain r2 st2 where x: "extend st1 result added = (r2, st2)"
                by (cases "extend st1 result added")
              from extend_keeps [OF x k1 fr(1)] have k2: "prefix st0 st2" .
              show ?thesis
              proof (cases r2)
                case (Inl e)
                with eq Inr True bd Some m added x k2 show ?thesis by auto
              next
                case u: (Inr u)
                obtain r3 st3 where p: "append_idx st2 to_remove idx = (r3, st3)"
                  by (cases "append_idx st2 to_remove idx")
                from append_idx_keeps [OF p k2 fr(2)] have k3: "prefix st0 st3" .
                show ?thesis
                proof (cases r3)
                  case (Inl e)
                  with eq Inr True bd Some m added x u p k3 show ?thesis by auto
                next
                  case v: (Inr v)
                  with eq Inr True bd Some m added x u p
                  have "loop st3 self result to_remove (Suc idx) = Some y" by simp
                  from IH [OF this] k3 fr show ?thesis by blast
                qed
              qed
            qed
          qed
        qed
      qed
    qed
  qed
qed

lemma find_materials_h_keeps:
  assumes "find_materials_h st self item = Some (r, st')" and "prefix st0 st"
  shows "prefix st0 st'"
proof (cases "collection_dict st self")
  case (Inl e)
  with assms show ?thesis by (simp add: find_materials_h_def)
next
  case bd: (Inr bd)
  show ?thesis
  proof (cases "map_of bd item")
    case None
    with assms bd show ?thesis by (simp add: find_materials_h_def)
  next
    case (Some b)
    obtain r1 st1 where m: "materials_list_h st b = (r1, st1)" by (cases "materials_list_h st b")
    from materials_list_h_keeps [OF m assms(2)]
    have k1: "prefix st0 st1" and f1: "\<forall>a. r1 = Inr a \<longrightarrow> length st0 \<le> a" by blast+
    show ?thesis
    proof (cases r1)
      case (Inl e)
      with assms bd Some m k1 show ?thesis by (simp add: find_materials_h_def)
    next
      case (Inr result)
      with f1 have fr: "length st0 \<le> result" by simp
      let ?st2 = "st1 @ [Int_list []]"
      have k2: "prefix st0 ?st2" using keeps_alloc [OF k1, of "Int_list []"] by (simp add: alloc_def)
      have ft: "length st0 \<le> length st1" using keeps_length [OF k1] .
      show ?thesis
      proof (cases "expand_loop_h ?st2 self result (length st1) 0")
        case None
        with assms bd Some m Inr show ?thesis by (simp add: find_materials_h_def alloc_def)
      next
        case l: (Some y)
        from expand_loop_h_keeps [OF l, of st0] k2 fr ft have k3: "prefix st0 (snd y)" by blast
        obtain r3 st3 where y: "y = (r3, st3)" by (cases y)
        from k3 y have k3': "prefix st0 st3" by simp
        from keeps_alloc [OF k3'] have k4: "\<And>ob. prefix st0 (st3 @ [ob])" by (simp add: alloc_def)
        from assms(1) bd Some m Inr l y k3' k4 show ?thesis
          by (auto simp: find_materials_h_def alloc_def split: sum.splits)
      qed
    qed
  qed
qed

lemma keyword_loop_h_keeps:
  "keyword_loop_h st self d ks = Some (r, st') \<Longrightarrow> prefix st0 st \<Longrightarrow> length st0 \<le> d \<Longrightarrow>
   prefix st0 st'"
proof (induction ks arbitrary: st)
  case Nil
  then show ?case by simp
next
  case (Cons k ks)
  show ?case
  proof (cases "find_materials_h st self k")
    case None
    with Cons.prems show ?thesis by simp
  next
    case (Some y)
    obtain r1 st1 where y: "y = (r1, st1)" by (cases y)
    from find_materials_h_keeps [OF Some [unfolded y] Cons.prems(2)] have k1: "prefix st0 st1" .
    show ?thesis
    proof (cases r1)
      case (Inl e)
      with Cons.prems Some y k1 show ?thesis by simp
    next
      case (Inr found)
      obtain r2 st2 where p: "pack_list_h st1 found = (r2, st2)" by (cases "pack_list_h st1 found")
      from pack_list_h_keeps [OF p k1] have k2: "prefix st0 st2" .
      show ?thesis
      proof (cases r2)
        case (Inl e)
        with Cons.prems Some y Inr p k2 show ?thesis by simp
      next
        case pa: (Inr pa)
        obtain r3 st3 where s: "store_item st2 d k pa = (r3, st3)" by (cases "store_item st2 d k pa")
        from store_item_keeps [OF s k2 Cons.prems(3)] have k3: "prefix st0 st3" .
        show ?thesis
        proof (cases r3)
          case (Inl e)
          with Cons.prems Some y Inr p pa s k3 show ?thesis by simp
        next
          case u: (Inr u)
          with Cons.prems(1) Some y Inr p pa s have "keyword_loop_h st3 self d ks = Some (r, st')"
            by simp
          from Cons.IH [OF this k3 Cons.prems(3)] show ?thesis .
        qed
      qed
    qed
  qed
qed

lemma find_keyword_h_keeps:
  assumes "find_keyword_h lower st self keyword = Some (r, st')"
  shows "prefix st st'"
proof (cases "collection_dict st self")
  case (Inl e)
  with assms show ?thesis by (simp add: find_keyword_h_def)
next
  case (Inr bd)
  let ?ks = "filter (\<lambda>k. str_contains (lower k) (lower keyword)) (map fst bd)"
  let ?st1 = "st @ [Str_list ?ks]"
  let ?st2 = "?st1 @ [Ref_dict []]"
  have g: "get_str_list ?st1 (length st) = Inr ?ks"
    by (simp add: get_str_list_def read_def)
  have k2: "prefix st ?st2" by (simp add: prefix_def)
  show ?thesis
  proof (cases "keyword_loop_h ?st2 self (Suc (length st)) ?ks")
    case None
    with assms Inr g show ?thesis by (simp add: find_keyword_h_def alloc_def)
  next
    case (Some y)
    obtain r3 st3 where y: "y = (r3, st3)" by (cases y)
    from keyword_loop_h_keeps [OF Some [unfolded y] k2] have "prefix st st3" by simp
    with assms Inr g Some y show ?thesis
      by (auto simp: find_keyword_h_def alloc_def split: sum.splits)
  qed
qed

lemma get_blueprint_read:
  "get_blueprint st a = Inr (n, t, m) \<longleftrightarrow> read st a = Some (Blueprint_obj n t m)"
  by (auto simp: get_blueprint_def split: option.splits obj.splits)

lemma get_int_dict_read: "get_int_dict st a = Inr d \<longleftrightarrow> read st a = Some (Int_dict d)"
  by (auto simp: get_int_dict_def split: option.splits obj.splits)

lemma get_ref_dict_read: "get_ref_dict st a = Inr d \<longleftrightarrow> read st a = Some (Ref_dict d)"
  by (auto simp: get_ref_dict_def split: option.splits obj.splits)

lemma get_blueprints_attr_read:
  "get_blueprints_attr st a = Inr d \<longleftrightarrow> read st a = Some (Blueprints_obj d)"
  by (auto simp: get_blueprints_attr_def split: option.splits obj.splits)

lemma collection_dict_read:
  "collection_dict st self = Inr bd \<longleftrightarrow>
   (\<exists>d. read st self = Some (Blueprints_obj d) \<and> read st d = Some (Ref_dict bd))"
proof
  assume "collection_dict st self = Inr bd"
  then obtain d where "get_blueprints_attr st self = Inr d" "get_ref_dict st d = Inr bd"
    by (auto simp: collection_dict_def split: sum.splits)
  then show "\<exists>d. read st self = Some (Blueprints_obj d) \<and> read st d = Some (Ref_dict bd)"
    by (auto simp: get_blueprints_attr_read get_ref_dict_read)
next
  assume "\<exists>d. read st self = Some (Blueprints_obj d) \<and> read st d = Some (Ref_dict bd)"
  then obtain d where "get_blueprints_attr st self = Inr d" "get_ref_dict st d = Inr bd"
    by (auto simp: get_blueprints_attr_read get_ref_dict_read)
  then show "collection_dict st self = Inr bd"
    by (simp add: collection_dict_def)
qed

lemma blueprint_at_read:
  "blueprint_at st a = Some bv \<longleftrightarrow>
   (\<exists>m. read st a = Some (Blueprint_obj (name bv) (type bv) m) \<and>
        read st m = Some (Int_dict (materials bv)))"
proof
  assume "blueprint_at st a = Some bv"
  then obtain n t m items where "get_blueprint st a = Inr (n, t, m)"
    "get_int_dict st m = Inr items" "bv = \<lparr>name = n, type = t, materials = items\<rparr>"
    by (auto simp: blueprint_at_def split: sum.splits)
  then show "\<exists>m. read st a = Some (Blueprint_obj (name bv) (type bv) m) \<and>
        read st m = Some (Int_dict (materials bv))"
    by (auto simp: get_blueprint_read get_int_dict_read)
next
  assume "\<exists>m. read st a = Some (Blueprint_obj (name bv) (type bv) m) \<and>
        read st m = Some (Int_dict (materials bv))"
  then obtain m where "get_blueprint st a = Inr (name bv, type bv, m)"
    "get_int_dict st m = Inr (materials bv)"
    by (auto simp: get_blueprint_read get_int_dict_read)
  then show "blueprint_at st a = Some bv"
    by (simp add: blueprint_at_def)
qed

lemma blueprint_at_keeps:
  "prefix st st' \<Longrightarrow> blueprint_at st a = Some bv \<Longrightarrow> blueprint_at st' a = Some bv"
  unfolding blueprint_at_read by (blast intro: keeps_read)

lemma those_map_Some:
  "those (map f xs) = Some ys \<Longrightarrow> x \<in> set xs \<Longrightarrow> \<exists>y. f x = Some y"
  by (induction xs arbitrary: ys) (auto split: option.splits)

lemma those_map_cong:
  "those (map f xs) = Some ys \<Longrightarrow> (\<And>x y. x \<in> set xs \<Longrightarrow> f x = Some y \<Longrightarrow> g x = Some y) \<Longrightarrow>
   those (map g xs) = Some ys"
proof -
  assume a: "those (map f xs) = Some ys"
    and b: "\<And>x y. x \<in> set xs \<Longrightarrow> f x = Some y \<Longrightarrow> g x = Some y"
  have "g x = f x" if x: "x \<in> set xs" for x
  proof -
    from a x obtain y where "f x = Some y" using those_map_Some by metis
    with b [OF x] show ?thesis by simp
  qed
  then have m: "map g xs = map f xs" by simp
  from a show ?thesis unfolding m .
qed

lemma collection_of_keeps:
  assumes "prefix st st'" and "collection_of st self = Some bps"
  shows "collection_of st' self = Some bps"
proof -
  from assms(2) obtain bd where bd: "collection_dict st self = Inr bd"
    and t: "those (map (\<lambda>(k, a). map_option (Pair k) (blueprint_at st a)) bd) = Some bps"
    by (auto simp: collection_of_def split: sum.splits)
  from bd assms(1) have bd': "collection_dict st' self = Inr bd"
    unfolding collection_dict_read by (blast intro: keeps_read)
  have "those (map (\<lambda>(k, a). map_option (Pair k) (blueprint_at st' a)) bd) = Some bps"
    by (rule those_map_cong [OF t]) (auto dest: blueprint_at_keeps [OF assms(1)])
  with bd' show ?thesis by (simp add: collection_of_def)
qed

lemma those_map_keys:
  "those (map (\<lambda>(k, a). map_option (Pair k) (g a)) bd) = Some bps \<Longrightarrow> map fst bps = map fst bd"
  by (induction bd arbitrary: bps) (auto split: option.splits)

lemma those_map_update:
  "those (map (\<lambda>(k, a). map_option (Pair k) (g a)) bd) = Some bps \<Longrightarrow> g b = Some bv \<Longrightarrow>
   those (map (\<lambda>(k, a). map_option (Pair k) (g a)) (AList.update n b bd)) =
     Some (AList.update n bv bps)"
  by (induction bd arbitrary: bps) (auto split: option.splits)

lemma read_update:
  "read (st[d := ob]) a = (if a = d \<and> d < length st then Some ob else read st a)"
  by (simp add: read_def)

lemma add_blueprint_h_collection:
  assumes "collection_of st self = Some bps" and "blueprint_at st b = Some bv"
  shows "fst (add_blueprint_h st self b) = Inr (fst (add_blueprint bps bv)) \<and>
         collection_of (snd (add_blueprint_h st self b)) self = Some (snd (add_blueprint bps bv))"
proof -
  let ?f = "\<lambda>st (k, a). map_option (Pair k) (blueprint_at st a)"
  from assms(1) obtain bd where bd: "collection_dict st self = Inr bd"
    and t: "those (map (?f st) bd) = Some bps"
    by (auto simp: collection_of_def split: sum.splits)
  from bd obtain d where d: "read st self = Some (Blueprints_obj d)" "read st d = Some (Ref_dict bd)"
    unfolding collection_dict_read by blast
  from assms(2) obtain m where m: "read st b = Some (Blueprint_obj (name bv) (type bv) m)"
    "read st m = Some (Int_dict (materials bv))"
    unfolding blueprint_at_read by blast
  let ?st' = "st[d := Ref_dict (AList.update (name bv) b bd)]"
  from d(2) have dl: "d < length st" by (simp add: read_def split: if_splits)
  have run: "add_blueprint_h st self b =
      (Inr (if name bv \<in> set (map fst bd) then [warning] else []), ?st')"
    using d m(1)
    by (simp add: add_blueprint_h_def get_blueprint_read [THEN iffD2]
        get_blueprints_attr_read [THEN iffD2] get_ref_dict_read [THEN iffD2])
  have keys: "map fst bps = map fst bd" using t by (rule those_map_keys)
  have same: "blueprint_at ?st' a = Some x" if "blueprint_at st a = Some x" for a x
  proof -
    from that obtain m' where m': "read st a = Some (Blueprint_obj (name x) (type x) m')"
      "read st m' = Some (Int_dict (materials x))"
      unfolding blueprint_at_read by blast
    with d(2) have "a \<noteq> d" "m' \<noteq> d" by auto
    with m' show ?thesis unfolding blueprint_at_read read_update by auto
  qed
  from d(1,2) have "self \<noteq> d" by auto
  with d(1) dl have cd: "collection_dict ?st' self = Inr (AList.update (name bv) b bd)"
    unfolding collection_dict_read read_update by auto
  from those_map_update [OF t assms(2)]
  have u: "those (map (?f st) (AList.update (name bv) b bd)) = Some (AList.update (name bv) bv bps)" .
  have "those (map (?f ?st') (AList.update (name bv) b bd)) = Some (AList.update (name bv) bv bps)"
    by (rule those_map_cong [OF u]) (auto dest: same)
  with cd have "collection_of ?st' self = Some (AList.update (name bv) bv bps)"
    by (simp add: collection_of_def)
  with run keys show ?thesis by (simp add: add_blueprint_def)
qed

lemma nested_store_collection: "collection_of nested_store 0 = Some nested_db"
  by code_simp

lemma nested_store_materials:
  "find_materials_h nested_store 0 ''X'' =
     Some (Inr 10, nested_store @
       [Str_list [''Y'', ''Y'', ''Z'', ''Z'', ''Z'', ''Z'', ''Z'', ''Z''], Int_list [0, 1],
        Str_list [''Z'', ''Z'', ''Z''], Str_list [''Z'', ''Z'', ''Z''],
        Str_list [''Z'', ''Z'', ''Z'', ''Z'', ''Z'', ''Z'']])"
  by code_simp

lemma nested_store_keyword:
  "find_keyword_h ascii_lower nested_store 0 ''x'' =
     Some (Inr 7, nested_store @
       [Str_list [''X''], Ref_dict [(''X'', 13)],
        Str_list [''Y'', ''Y'', ''Z'', ''Z'', ''Z'', ''Z'', ''Z'', ''Z''], Int_list [0, 1],
        Str_list [''Z'', ''Z'', ''Z''], Str_list [''Z'', ''Z'', ''Z''],
        Str_list [''Z'', ''Z'', ''Z'', ''Z'', ''Z'', ''Z''], Int_dict [(''Z'', 6)]])"
  by code_simp

section \<open>The store and the collection it holds\<close>

lemma those_map_of:
  "those (map (\<lambda>(k, a). map_option (Pair k) (g a)) bd) = Some bps \<Longrightarrow>
   map_of bps k = (case map_of bd k of None \<Rightarrow> None | Some a \<Rightarrow> g a)"
  by (induction bd arbitrary: bps) (auto split: option.splits)

lemma those_map_of_None:
  "those (map (\<lambda>(k, a). map_option (Pair k) (g a)) bd) = Some bps \<Longrightarrow>
   map_of bps k = None \<longleftrightarrow> map_of bd k = None"
  by (induction bd arbitrary: bps) (auto split: option.splits)

lemma collection_lookup:
  assumes "collection_of st self = Some bps"
  shows "\<exists>bd. collection_dict st self = Inr bd \<and>
    (\<forall>k. map_of bps k = None \<longrightarrow> map_of bd k = None) \<and>
    (\<forall>k bv. map_of bps k = Some bv \<longrightarrow>
       (\<exists>a. map_of bd k = Some a \<and> blueprint_at st a = Some bv))"
proof -
  from assms obtain bd where bd: "collection_dict st self = Inr bd"
    and t: "those (map (\<lambda>(k, a). map_option (Pair k) (blueprint_at st a)) bd) = Some bps"
    by (auto simp: collection_of_def split: sum.splits)
  have n: "map_of bd k = None" if "map_of bps k = None" for k
    using those_map_of_None [OF t] that by simp
  have "\<exists>a. map_of bd k = Some a \<and> blueprint_at st a = Some bv" if "map_of bps k = Some bv" for k bv
    using those_map_of [OF t, of k] that by (auto split: option.splits)
  with bd n show ?thesis by blast
qed

lemma materials_list_h_run:
  assumes "blueprint_at st a = Some bv"
  shows "materials_list_h st a = (Inr (length st), st @ [Str_list (materials_list bv)])"
proof -
  from assms obtain m where "get_blueprint st a = Inr (name bv, type bv, m)"
    "get_int_dict st m = Inr (materials bv)"
    unfolding blueprint_at_read by (auto simp: get_blueprint_read get_int_dict_read)
  then show ?thesis
    by (simp add: materials_list_h_def alloc_def materials_list_def)
qed

lemma get_str_list_read: "get_str_list st a = Inr xs \<longleftrightarrow> read st a = Some (Str_list xs)"
  by (auto simp: get_str_list_def split: option.splits obj.splits)

lemma get_int_list_read: "get_int_list st a = Inr xs \<longleftrightarrow> read st a = Some (Int_list xs)"
  by (auto simp: get_int_list_def split: option.splits obj.splits)

lemma read_append:
  "read (st @ [ob]) a = (if a = length st then Some ob else read st a)"
  by (auto simp: read_def nth_append)

lemma read_Some_less: "read st a = Some ob \<Longrightarrow> a < length st"
  by (simp add: read_def split: if_splits)

text \<open>One round of the loop on the store, for a pending name that is a blueprint.\<close>

lemma loop_round_item:
  assumes inv: "loop_inv st0 result to_remove st xs tr"
    and a: "blueprint_at st a = Some bv"
  obtains st3 where
    "materials_list_h st a = (Inr (length st), st @ [Str_list (materials_list bv)])"
    "extend (st @ [Str_list (materials_list bv)]) result (length st) =
       (Inr (), (st @ [Str_list (materials_list bv)])[result := Str_list (xs @ materials_list bv)])"
    "append_idx ((st @ [Str_list (materials_list bv)])[result := Str_list (xs @ materials_list bv)])
       to_remove idx = (Inr (), st3)"
    "loop_inv st0 result to_remove st3 (xs @ materials_list bv) (tr @ [idx])"
proof -
  let ?ml = "materials_list bv"
  let ?st1 = "st @ [Str_list ?ml]"
  let ?st2 = "?st1[result := Str_list (xs @ ?ml)]"
  let ?st3 = "?st2[to_remove := Int_list (tr @ [idx])]"
  from inv have p: "prefix st0 st" and fr: "length st0 \<le> result" "length st0 \<le> to_remove"
    and ne: "result \<noteq> to_remove"
    and r: "read st result = Some (Str_list xs)" and t: "read st to_remove = Some (Int_list tr)"
    by (simp_all add: loop_inv_def)
  from r t have lt: "result < length st" "to_remove < length st" by (auto dest: read_Some_less)
  have 1: "materials_list_h st a = (Inr (length st), ?st1)" using a by (rule materials_list_h_run)
  have "read ?st1 result = Some (Str_list xs)" "read ?st1 (length st) = Some (Str_list ?ml)"
    using r lt by (simp_all add: read_append)
  then have 2: "extend ?st1 result (length st) = (Inr (), ?st2)"
    by (simp add: extend_def get_str_list_read [THEN iffD2])
  have "read ?st2 to_remove = Some (Int_list tr)"
    using t lt ne by (simp add: read_update read_append)
  then have 3: "append_idx ?st2 to_remove idx = (Inr (), ?st3)"
    by (simp add: append_idx_def get_int_list_read [THEN iffD2])
  have "prefix st0 ?st1" using p by (auto simp: prefix_def)
  then have "prefix st0 ?st3" using fr by (intro keeps_update)
  moreover have "read ?st3 result = Some (Str_list (xs @ ?ml))"
    "read ?st3 to_remove = Some (Int_list (tr @ [idx]))"
    using lt ne by (simp_all add: read_update)
  ultimately have "loop_inv st0 result to_remove ?st3 (xs @ ?ml) (tr @ [idx])"
    using fr ne by (simp add: loop_inv_def)
  with 1 2 3 that show ?thesis by blast
qed


lemma loop_inv_collection:
  assumes "collection_of st0 self = Some bps" and "loop_inv st0 result to_remove st xs tr"
  shows "collection_of st self = Some bps"
  using assms by (auto simp: loop_inv_def intro: collection_of_keeps)

text \<open>Where \<^verbatim>\<open>find_materials\<close> on the collection returns, the loop on the store returns.\<close>

lemma expand_loop_h_simulates:
  assumes "expand_loop bps xs tr idx = Some y"
  shows "collection_of st0 self = Some bps \<longrightarrow>
    (\<forall>st. loop_inv st0 result to_remove st xs tr \<longrightarrow>
      (\<exists>st'. expand_loop_h st self result to_remove idx = Some (Inr (), st') \<and>
             loop_inv st0 result to_remove st' (fst y) (snd y)))"
proof (rule expand_loop.raw_induct
    [where P = "\<lambda>bps xs tr idx y. collection_of st0 self = Some bps \<longrightarrow>
      (\<forall>st. loop_inv st0 result to_remove st xs tr \<longrightarrow>
        (\<exists>st'. expand_loop_h st self result to_remove idx = Some (Inr (), st') \<and>
               loop_inv st0 result to_remove st' (fst y) (snd y)))"])
  show "expand_loop bps xs tr idx = Some y" by (rule assms)
next
  fix loop :: "blueprints \<Rightarrow> string list \<Rightarrow> nat list \<Rightarrow> nat \<Rightarrow> (string list \<times> nat list) option"
    and bps xs tr idx y
  assume IH: "\<And>bps xs tr idx y. loop bps xs tr idx = Some y \<Longrightarrow>
      collection_of st0 self = Some bps \<longrightarrow>
      (\<forall>st. loop_inv st0 result to_remove st xs tr \<longrightarrow>
        (\<exists>st'. expand_loop_h st self result to_remove idx = Some (Inr (), st') \<and>
               loop_inv st0 result to_remove st' (fst y) (snd y)))"
    and eq: "(if idx < length xs then
        (case map_of bps (xs ! idx) of
           None \<Rightarrow> loop bps xs tr (Suc idx)
         | Some b \<Rightarrow> loop bps (xs @ materials_list b) (tr @ [idx]) (Suc idx))
      else Some (xs, tr)) = Some y"
  show "collection_of st0 self = Some bps \<longrightarrow>
      (\<forall>st. loop_inv st0 result to_remove st xs tr \<longrightarrow>
        (\<exists>st'. expand_loop_h st self result to_remove idx = Some (Inr (), st') \<and>
               loop_inv st0 result to_remove st' (fst y) (snd y)))"
  proof (intro impI allI)
    fix st
    assume c0: "collection_of st0 self = Some bps"
      and inv: "loop_inv st0 result to_remove st xs tr"
    from inv have g: "get_str_list st result = Inr xs"
      by (simp add: loop_inv_def get_str_list_read)
    from collection_lookup [OF loop_inv_collection [OF c0 inv]]
    obtain bd where bd: "collection_dict st self = Inr bd"
      and none: "\<And>k. map_of bps k = None \<Longrightarrow> map_of bd k = None"
      and some: "\<And>k bv. map_of bps k = Some bv \<Longrightarrow>
           \<exists>a. map_of bd k = Some a \<and> blueprint_at st a = Some bv"
      by blast
    show "\<exists>st'. expand_loop_h st self result to_remove idx = Some (Inr (), st') \<and>
        loop_inv st0 result to_remove st' (fst y) (snd y)"
    proof (cases "idx < length xs")
      case False
      with eq have "y = (xs, tr)" by simp
      moreover from False g have "expand_loop_h st self result to_remove idx = Some (Inr (), st)"
        by (subst expand_loop_h.simps) simp
      ultimately show ?thesis using inv by simp
    next
      case True
      show ?thesis
      proof (cases "map_of bps (xs ! idx)")
        case None
        with eq True have "loop bps xs tr (Suc idx) = Some y" by simp
        from IH [OF this] c0 inv obtain st' where
          "expand_loop_h st self result to_remove (Suc idx) = Some (Inr (), st')"
          "loop_inv st0 result to_remove st' (fst y) (snd y)" by blast
        moreover have "expand_loop_h st self result to_remove idx =
            expand_loop_h st self result to_remove (Suc idx)"
          using True g bd none [OF None] by (subst expand_loop_h.simps) simp
        ultimately show ?thesis by simp
      next
        case (Some bv)
        with eq True have l: "loop bps (xs @ materials_list bv) (tr @ [idx]) (Suc idx) = Some y"
          by simp
        from some [OF Some] obtain a where a: "map_of bd (xs ! idx) = Some a"
          "blueprint_at st a = Some bv" by blast
        from loop_round_item [OF inv a(2), of idx] obtain st3 where r:
          "materials_list_h st a = (Inr (length st), st @ [Str_list (materials_list bv)])"
          "extend (st @ [Str_list (materials_list bv)]) result (length st) =
            (Inr (), (st @ [Str_list (materials_list bv)])[result := Str_list (xs @ materials_list bv)])"
          "append_idx ((st @ [Str_list (materials_list bv)])[result := Str_list (xs @ materials_list bv)])
            to_remove idx = (Inr (), st3)"
          "loop_inv st0 result to_remove st3 (xs @ materials_list bv) (tr @ [idx])"
          by blast
        from IH [OF l] c0 r(4) obtain st' where
          "expand_loop_h st3 self result to_remove (Suc idx) = Some (Inr (), st')"
          "loop_inv st0 result to_remove st' (fst y) (snd y)" by blast
        moreover have "expand_loop_h st self result to_remove idx =
            expand_loop_h st3 self result to_remove (Suc idx)"
          using True g bd a(1) r(1,2,3) by (subst expand_loop_h.simps) simp
        ultimately show ?thesis by simp
      qed
    qed
  qed
qed

text \<open>Where the loop on the store returns, it has not raised, and \<^verbatim>\<open>find_materials\<close> on the collection returns.\<close>

lemma expand_loop_h_simulated:
  assumes "expand_loop_h st self result to_remove idx = Some y"
  shows "collection_of st0 self = Some bps \<longrightarrow>
    (\<forall>xs tr. loop_inv st0 result to_remove st xs tr \<longrightarrow>
      (\<exists>xs' tr' st'. y = (Inr (), st') \<and> expand_loop bps xs tr idx = Some (xs', tr') \<and>
             loop_inv st0 result to_remove st' xs' tr'))"
proof (rule expand_loop_h.raw_induct
    [where P = "\<lambda>st self result to_remove idx y. collection_of st0 self = Some bps \<longrightarrow>
      (\<forall>xs tr. loop_inv st0 result to_remove st xs tr \<longrightarrow>
        (\<exists>xs' tr' st'. y = (Inr (), st') \<and> expand_loop bps xs tr idx = Some (xs', tr') \<and>
               loop_inv st0 result to_remove st' xs' tr'))"])
  show "expand_loop_h st self result to_remove idx = Some y" by (rule assms)
next
  fix loop :: "store \<Rightarrow> addr \<Rightarrow> addr \<Rightarrow> addr \<Rightarrow> nat \<Rightarrow> ((fault + unit) \<times> store) option"
    and st self result to_remove idx y
  assume IH: "\<And>st self result to_remove idx y. loop st self result to_remove idx = Some y \<Longrightarrow>
      collection_of st0 self = Some bps \<longrightarrow>
      (\<forall>xs tr. loop_inv st0 result to_remove st xs tr \<longrightarrow>
        (\<exists>xs' tr' st'. y = (Inr (), st') \<and> expand_loop bps xs tr idx = Some (xs', tr') \<and>
               loop_inv st0 result to_remove st' xs' tr'))"
    and eq: "(case get_str_list st result of
        Inl e \<Rightarrow> Some (Inl e, st)
      | Inr xs \<Rightarrow>
          if idx < length xs then
            (case collection_dict st self of
               Inl e \<Rightarrow> Some (Inl e, st)
             | Inr bd \<Rightarrow>
                 (case map_of bd (xs ! idx) of
                    None \<Rightarrow> loop st self result to_remove (Suc idx)
                  | Some b \<Rightarrow>
                      (case materials_list_h st b of
                         (Inl e, st1) \<Rightarrow> Some (Inl e, st1)
                       | (Inr added, st1) \<Rightarrow>
                           (case extend st1 result added of
                              (Inl e, st2) \<Rightarrow> Some (Inl e, st2)
                            | (Inr u, st2) \<Rightarrow>
                                (case append_idx st2 to_remove idx of
                                   (Inl e, st3) \<Rightarrow> Some (Inl e, st3)
                                 | (Inr v, st3) \<Rightarrow>
                                     loop st3 self result to_remove (Suc idx))))))
          else Some (Inr (), st)) = Some y"
  show "collection_of st0 self = Some bps \<longrightarrow>
      (\<forall>xs tr. loop_inv st0 result to_remove st xs tr \<longrightarrow>
        (\<exists>xs' tr' st'. y = (Inr (), st') \<and> expand_loop bps xs tr idx = Some (xs', tr') \<and>
               loop_inv st0 result to_remove st' xs' tr'))"
  proof (intro impI allI)
    fix xs tr
    assume c0: "collection_of st0 self = Some bps"
      and inv: "loop_inv st0 result to_remove st xs tr"
    from inv have g: "get_str_list st result = Inr xs"
      by (simp add: loop_inv_def get_str_list_read)
    from collection_lookup [OF loop_inv_collection [OF c0 inv]]
    obtain bd where bd: "collection_dict st self = Inr bd"
      and none: "\<And>k. map_of bps k = None \<Longrightarrow> map_of bd k = None"
      and some: "\<And>k bv. map_of bps k = Some bv \<Longrightarrow>
           \<exists>a. map_of bd k = Some a \<and> blueprint_at st a = Some bv"
      by blast
    show "\<exists>xs' tr' st'. y = (Inr (), st') \<and> expand_loop bps xs tr idx = Some (xs', tr') \<and>
        loop_inv st0 result to_remove st' xs' tr'"
    proof (cases "idx < length xs")
      case False
      with eq g have "y = (Inr (), st)" by simp
      moreover from False have "expand_loop bps xs tr idx = Some (xs, tr)"
        by (subst expand_loop.simps) simp
      ultimately show ?thesis using inv by blast
    next
      case True
      show ?thesis
      proof (cases "map_of bps (xs ! idx)")
        case None
        with eq True g bd none [OF None]
        have "loop st self result to_remove (Suc idx) = Some y" by simp
        from IH [OF this] c0 inv obtain xs' tr' st' where
          "y = (Inr (), st')" "expand_loop bps xs tr (Suc idx) = Some (xs', tr')"
          "loop_inv st0 result to_remove st' xs' tr'" by blast
        moreover have "expand_loop bps xs tr idx = expand_loop bps xs tr (Suc idx)"
          using True None by (subst expand_loop.simps) simp
        ultimately show ?thesis by simp
      next
        case (Some bv)
        from some [OF Some] obtain a where a: "map_of bd (xs ! idx) = Some a"
          "blueprint_at st a = Some bv" by blast
        from loop_round_item [OF inv a(2), of idx] obtain st3 where r:
          "materials_list_h st a = (Inr (length st), st @ [Str_list (materials_list bv)])"
          "extend (st @ [Str_list (materials_list bv)]) result (length st) =
            (Inr (), (st @ [Str_list (materials_list bv)])[result := Str_list (xs @ materials_list bv)])"
          "append_idx ((st @ [Str_list (materials_list bv)])[result := Str_list (xs @ materials_list bv)])
            to_remove idx = (Inr (), st3)"
          "loop_inv st0 result to_remove st3 (xs @ materials_list bv) (tr @ [idx])"
          by blast
        from eq True g bd a(1) r(1,2,3)
        have "loop st3 self result to_remove (Suc idx) = Some y" by simp
        from IH [OF this] c0 r(4) obtain xs' tr' st' where
          "y = (Inr (), st')"
          "expand_loop bps (xs @ materials_list bv) (tr @ [idx]) (Suc idx) = Some (xs', tr')"
          "loop_inv st0 result to_remove st' xs' tr'" by blast
        moreover have "expand_loop bps xs tr idx =
            expand_loop bps (xs @ materials_list bv) (tr @ [idx]) (Suc idx)"
          using True Some by (subst expand_loop.simps) simp
        ultimately show ?thesis by simp
      qed
    qed
  qed
qed


text \<open>
  \<^verbatim>\<open>find_materials\<close> on the store does what \<^verbatim>\<open>find_materials\<close> does on the collection the
  store holds: it returns, raises or runs forever alike, and the list it returns is a new
  object holding the same names.
\<close>

lemma find_materials_h_refines:
  assumes c: "collection_of st self = Some bps"
  shows "(find_materials bps item = None \<longrightarrow> find_materials_h st self item = None) \<and>
    (\<forall>e. find_materials bps item = Some (Inl e) \<longrightarrow>
       find_materials_h st self item = Some (Inl (Raised e), st)) \<and>
    (\<forall>found. find_materials bps item = Some (Inr found) \<longrightarrow>
       (\<exists>a st'. find_materials_h st self item = Some (Inr a, st') \<and> length st \<le> a \<and>
          read st' a = Some (Str_list found)))"
proof -
  from collection_lookup [OF c] obtain bd where bd: "collection_dict st self = Inr bd"
    and none: "\<And>k. map_of bps k = None \<Longrightarrow> map_of bd k = None"
    and some: "\<And>k bv. map_of bps k = Some bv \<Longrightarrow>
         \<exists>a. map_of bd k = Some a \<and> blueprint_at st a = Some bv"
    by blast
  show ?thesis
  proof (cases "map_of bps item")
    case None
    with bd none [OF None] show ?thesis
      by (simp add: find_materials_def find_materials_h_def)
  next
    case (Some bv)
    from some [OF Some] obtain b where b: "map_of bd item = Some b" "blueprint_at st b = Some bv"
      by blast
    let ?xs = "materials_list bv"
    let ?st1 = "st @ [Str_list ?xs]"
    let ?st2 = "?st1 @ [Int_list []]"
    let ?result = "length st"
    let ?to_remove = "Suc (length st)"
    have m: "materials_list_h st b = (Inr ?result, ?st1)" using b(2) by (rule materials_list_h_run)
    have inv: "loop_inv st ?result ?to_remove ?st2 ?xs []"
      by (simp add: loop_inv_def read_def nth_append prefix_def)
    show ?thesis
    proof (cases "expand_loop bps ?xs [] 0")
      case None
      have "expand_loop_h ?st2 self ?result ?to_remove 0 = None"
      proof (cases "expand_loop_h ?st2 self ?result ?to_remove 0")
        case (Some y)
        from expand_loop_h_simulated [OF this, of st bps, rule_format, OF c inv]
        obtain xs' tr' where "expand_loop bps ?xs [] 0 = Some (xs', tr')" by blast
        with None show ?thesis by simp
      qed simp
      with bd b(1) m have "find_materials_h st self item = None"
        by (simp add: find_materials_h_def alloc_def)
      with None Some show ?thesis by (simp add: find_materials_def)
    next
      case l: (Some y)
      obtain xs' tr' where y: "y = (xs', tr')" by (cases y)
      from expand_loop_h_simulates [OF l, of st self ?result ?to_remove, rule_format, OF c inv]
      obtain st3 where r: "expand_loop_h ?st2 self ?result ?to_remove 0 = Some (Inr (), st3)"
        "loop_inv st ?result ?to_remove st3 xs' tr'" unfolding y by auto
      from r(2) have g: "get_str_list st3 ?result = Inr xs'" "get_int_list st3 ?to_remove = Inr tr'"
        and p: "prefix st st3"
        by (simp_all add: loop_inv_def get_str_list_read get_int_list_read)
      from bd b(1) m r(1) g have "find_materials_h st self item =
          Some (Inr (length st3), st3 @ [Str_list (unmarked xs' tr')])"
        by (simp add: find_materials_h_def alloc_def)
      moreover have "read (st3 @ [Str_list (unmarked xs' tr')]) (length st3) =
          Some (Str_list (unmarked xs' tr'))" by (simp add: read_append)
      moreover have "length st \<le> length st3" using p by (rule prefix_length_le)
      moreover have "find_materials bps item = Some (Inr (unmarked xs' tr'))"
        using Some l y by (simp add: find_materials_def)
      ultimately show ?thesis by auto
    qed
  qed
qed

section \<open>The claims\<close>

text \<open>
  C1, as amended. The code has no cycle detection and no error for a cyclic recipe. For
  every collection and every item on a cycle of the ingredient graph (a chain of
  ingredients with quantities of at least one that leads back to the item),
  \<^verbatim>\<open>find_materials\<close> raises nothing and never returns: the loop keeps appending to the
  list it walks.
\<close>

theorem cyclic_item_never_returns:
  "(item, item) \<in> (ingredient_of bps)\<^sup>+ \<Longrightarrow> find_materials bps item = None"
  by (rule find_materials_on_cycle)

theorem cyclic_item_never_returns_witness:
  "find_materials cyclic_db ''P'' = None"
  using cyclic_item_never_returns [OF cycle_cyclic] .

text \<open>
  The claim fails as stated: with \<open>P\<close> needing \<open>Q\<close> and \<open>Q\<close> needing \<open>P\<close>, resolving
  either of them does not end, with an error or otherwise.
\<close>

theorem cyclic_recipe_counterexample:
  "find_materials cyclic_db ''P'' = None \<and> find_materials cyclic_db ''Q'' = None"
  using find_materials_on_cycle [OF cycle_cyclic] find_materials_on_cycle [OF cycle_cyclic_Q]
  by simp

text \<open>
  C2. On an acyclic collection whose quantities are all at least one, and for an item
  name that is a key, \<^verbatim>\<open>find_materials\<close> returns a list, the weighted resolution returns
  a table of counts once its depth bound is large enough, and that table is
  \<^verbatim>\<open>pack_list\<close> of the list.
\<close>

theorem weighted_refinement:
  assumes "acyclic (ingredient_of bps)" and "quantities_positive bps"
    and "item \<in> fst ` set bps"
  shows "\<exists>found. find_materials bps item = Some (Inr found) \<and>
           (\<exists>n. \<forall>fuel \<ge> n.
              resolve_materials_weighted fuel bps item = Some (Inr (pack_list found)))"
proof -
  from assms(3) obtain b where b: "map_of bps item = Some b"
    by (metis map_of_eq_None_iff not_Some_eq)
  from expands_total [OF assms(1)] obtain n M where e: "expands bps (materials_list b) n M"
    by blast
  from find_materials_expands [OF b e] obtain found where
    f: "find_materials bps item = Some (Inr found)" "mset found = M" by blast
  from b have "(item, b) \<in> set bps" by (rule map_of_SomeD)
  with assms(2) have w: "\<forall>(m, q') \<in> set (materials b). 1 \<le> q'"
    by (auto simp: quantities_positive_def)
  have "resolve_materials_weighted fuel bps item = Some (Inr (pack_list found))"
    if "n \<le> fuel" for fuel
  proof -
    have "resolve_each fuel bps (materials b) 1 (table_of {#}) =
        Some (table_of ({#} + repeat_mset (nat 1) M))"
      by (rule resolve_each_expands [OF assms(2) w e [unfolded materials_list_def] that]) simp
    then show ?thesis
      using b f(2) by (simp add: resolve_materials_weighted_def pack_list_table)
  qed
  with f(1) show ?thesis by blast
qed

theorem weighted_refinement_witness:
  "\<exists>n. resolve_materials_weighted n nested_db ''X'' =
     Some (Inr (pack_list [''Z'', ''Z'', ''Z'', ''Z'', ''Z'', ''Z'']))"
proof -
  have "''X'' \<in> fst ` set nested_db" by (simp add: nested_db_def bp_def)
  from weighted_refinement [OF acyclic_nested quantities_nested this]
  obtain found n where "find_materials nested_db ''X'' = Some (Inr found)"
    "\<forall>fuel \<ge> n. resolve_materials_weighted fuel nested_db ''X'' = Some (Inr (pack_list found))"
    by blast
  then have "resolve_materials_weighted n nested_db ''X'' =
      Some (Inr (pack_list (replicate 6 ''Z'')))"
    by (simp add: nested_X)
  then show ?thesis by (auto simp: numeral_eq_Suc)
qed

text \<open>
  C3. Where blueprint \<open>x\<close> needs only \<open>y\<close>, \<open>a\<close> times, blueprint \<open>y\<close> needs only \<open>z\<close>,
  \<open>c\<close> times, and \<open>z\<close> is not a blueprint, resolving \<open>x\<close> returns \<open>z\<close> exactly \<open>a * c\<close>
  times and nothing else (six times and no \<open>y\<close> for quantities 2 and 3). In every
  collection, no name in a returned list is a blueprint.
\<close>

theorem nested_expansion:
  "(map_of bps x = Some b1 \<and> materials b1 = [(y, a)] \<and>
    map_of bps y = Some b2 \<and> materials b2 = [(z, c)] \<and> map_of bps z = None \<longrightarrow>
      find_materials bps x = Some (Inr (replicate (nat a * nat c) z))) \<and>
   (find_materials bps item = Some (Inr found) \<longrightarrow> (\<forall>m \<in> set found. map_of bps m = None))"
proof (intro conjI impI)
  assume h: "map_of bps x = Some b1 \<and> materials b1 = [(y, a)] \<and>
    map_of bps y = Some b2 \<and> materials b2 = [(z, c)] \<and> map_of bps z = None"
  then have m1: "materials_list b1 = replicate (nat a) y"
    and m2: "materials_list b2 = replicate (nat c) z"
    by (simp_all add: materials_list_def)
  have "expands bps (materials_list b2) (length (materials_list b2)) (mset (materials_list b2))"
    by (rule expands_raw_list) (use h m2 in simp)
  from expands_item [OF _ this expands_Nil] h
  have "expands bps [y] (Suc (nat c)) (replicate_mset (nat c) z)"
    by (simp add: m2)
  from expands_replicate_intro [OF this, of "nat a"]
  have "expands bps (materials_list b1) (nat a * Suc (nat c))
      (repeat_mset (nat a) (replicate_mset (nat c) z))"
    by (simp add: m1)
  with find_materials_expands h obtain found where
    f: "find_materials bps x = Some (Inr found)"
       "mset found = repeat_mset (nat a) (replicate_mset (nat c) z)"
    by blast
  have "repeat_mset (nat a) (replicate_mset (nat c) z) = replicate_mset (nat a * nat c) z"
    by (rule multiset_eqI) simp
  with f(2) have r: "mset found = replicate_mset (nat a * nat c) z" by simp
  then have "\<forall>m \<in># mset found. m = z" by simp
  then have "\<forall>m \<in> set found. m = z" by simp
  then have "replicate (length found) z = found" by (rule replicate_length_same)
  moreover from r have "size (mset found) = nat a * nat c"
    by simp
  ultimately have "found = replicate (nat a * nat c) z" by (metis size_mset)
  with f(1) show "find_materials bps x = Some (Inr (replicate (nat a * nat c) z))" by simp
next
  assume "find_materials bps item = Some (Inr found)"
  then show "\<forall>m \<in> set found. map_of bps m = None"
    using find_materials_raw_only by blast
qed

theorem nested_expansion_witness:
  "find_materials nested_db ''X'' = Some (Inr [''Z'', ''Z'', ''Z'', ''Z'', ''Z'', ''Z'']) \<and>
   count_list [''Z'', ''Z'', ''Z'', ''Z'', ''Z'', ''Z''] ''Y'' = 0"
proof -
  have "find_materials nested_db ''X'' = Some (Inr (replicate (nat 2 * nat 3) ''Z''))"
    using nested_expansion [of nested_db "''X''" "snd (bp ''X'' [(''Y'', 2)])" "''Y''" 2
        "snd (bp ''Y'' [(''Z'', 3)])" "''Z''" 3]
    by (simp add: nested_db_def bp_def)
  then show ?thesis by (simp add: numeral_eq_Suc)
qed

text \<open>
  C4. Resolving a name that is not a key of the collection raises \<^verbatim>\<open>KeyError\<close> carrying
  that name (the lookup \<^verbatim>\<open>self.blueprints[ item_name ]\<close> is not guarded); resolving a name
  that is a key raises no error.
\<close>

theorem unknown_item_error:
  "(item \<notin> fst ` set bps \<longrightarrow> find_materials bps item = Some (Inl (KeyError item))) \<and>
   (item \<in> fst ` set bps \<longrightarrow> find_materials bps item \<noteq> Some (Inl e))"
proof (intro conjI impI)
  assume "item \<notin> fst ` set bps"
  then have "map_of bps item = None" by (simp add: map_of_eq_None_iff)
  then show "find_materials bps item = Some (Inl (KeyError item))"
    by (simp add: find_materials_def)
next
  assume "item \<in> fst ` set bps"
  then obtain b where "map_of bps item = Some b"
    by (metis map_of_eq_None_iff not_Some_eq)
  then show "find_materials bps item \<noteq> Some (Inl e)" by (rule find_materials_no_error)
qed

theorem unknown_item_error_witness:
  "find_materials nested_db ''Z'' = Some (Inl (KeyError ''Z'')) \<and>
   find_materials nested_db ''Y'' \<noteq> Some (Inl (KeyError ''Y''))"
  using unknown_item_error [of "''Z''" nested_db] unknown_item_error [of "''Y''" nested_db "KeyError ''Y''"]
  by (simp add: nested_db_def bp_def)

text \<open>
  C5. Adding a blueprint whose name is already a key prints the warning and goes on:
  the size and the keys of the collection stay as they were, and the name now maps to
  the blueprint just added.
\<close>

theorem duplicate_insertion:
  assumes "name b \<in> fst ` set bps"
  shows "size_bps (snd (add_blueprint bps b)) = size_bps bps \<and>
         map fst (snd (add_blueprint bps b)) = map fst bps \<and>
         map_of (snd (add_blueprint bps b)) (name b) = Some b \<and>
         fst (add_blueprint bps b) = [warning]"
  using assms
  by (simp add: add_blueprint_def size_bps_def length_AList_update update_keys update_conv')

theorem duplicate_insertion_witness:
  "size_bps (snd (add_blueprint nested_db (snd (bp ''X'' [(''Z'', 1)])))) = 2 \<and>
   map_of (snd (add_blueprint nested_db (snd (bp ''X'' [(''Z'', 1)])))) ''X'' =
     Some (snd (bp ''X'' [(''Z'', 1)]))"
  using duplicate_insertion [of "snd (bp ''X'' [(''Z'', 1)])" nested_db]
  by (simp add: nested_db_def bp_def size_bps_def)

text \<open>
  C6. When no ingredient of a blueprint is itself a blueprint, resolving it returns its
  flat ingredient list as it is. With the ingredient names distinct, as the keys of a
  dictionary are, an ingredient stored with quantity \<open>q\<close> occurs \<open>q\<close> times in that
  list (not at all when \<open>q\<close> is below one), and no other name occurs.
\<close>

theorem flat_resolution:
  assumes "map_of bps item = Some b"
    and "\<forall>m \<in> fst ` set (materials b). map_of bps m = None"
  shows "find_materials bps item = Some (Inr (materials_list b)) \<and>
         (distinct (map fst (materials b)) \<longrightarrow>
            (\<forall>(m, q) \<in> set (materials b). count_list (materials_list b) m = nat q)) \<and>
         (\<forall>m. m \<notin> fst ` set (materials b) \<longrightarrow> count_list (materials_list b) m = 0)"
proof (intro conjI)
  have "set (materials_list b) \<subseteq> fst ` set (materials b)"
    by (force simp: set_materials_list)
  with assms(2) have "\<forall>i. 0 \<le> i \<and> i < length (materials_list b) \<longrightarrow>
      map_of bps (materials_list b ! i) = None"
    by (meson nth_mem subsetD)
  then have "expand_loop bps (materials_list b) [] 0 = Some (materials_list b, [])"
    by (rule expand_loop_raw)
  with assms(1) show "find_materials bps item = Some (Inr (materials_list b))"
    by (simp add: find_materials_def)
next
  show "distinct (map fst (materials b)) \<longrightarrow>
      (\<forall>(m, q) \<in> set (materials b). count_list (materials_list b) m = nat q)"
    by (auto simp: materials_list_def count_flat)
next
  show "\<forall>m. m \<notin> fst ` set (materials b) \<longrightarrow> count_list (materials_list b) m = 0"
    by (auto simp: materials_list_def intro: count_flat_absent)
qed

theorem flat_resolution_witness:
  "find_materials flat_db ''W'' = Some (Inr [''A'', ''A'', ''B'', ''B'', ''B'']) \<and>
   count_list [''A'', ''A'', ''B'', ''B'', ''B''] ''A'' = 2 \<and>
   count_list [''A'', ''A'', ''B'', ''B'', ''B''] ''B'' = 3"
proof -
  let ?b = "snd (bp ''W'' [(''A'', 2), (''B'', 3)])"
  have ml: "materials_list ?b = [''A'', ''A'', ''B'', ''B'', ''B'']"
    by (simp add: materials_list_def bp_def numeral_eq_Suc)
  have "map_of flat_db ''W'' = Some ?b" by (simp add: flat_db_def bp_def)
  moreover have "\<forall>m \<in> fst ` set (materials ?b). map_of flat_db m = None"
    by (simp add: flat_db_def bp_def)
  ultimately have "find_materials flat_db ''W'' = Some (Inr (materials_list ?b)) \<and>
         (distinct (map fst (materials ?b)) \<longrightarrow>
            (\<forall>(m, q) \<in> set (materials ?b). count_list (materials_list ?b) m = nat q))"
    using flat_resolution [of flat_db "''W''" ?b] by blast
  then show ?thesis unfolding ml by (simp add: bp_def)
qed

text \<open>
  C7. \<^verbatim>\<open>pack_list\<close> gives the same mapping on two lists that are permutations of each
  other, and maps every element of its input to the number of its occurrences and
  nothing else to anything.
\<close>

theorem pack_list_permutation:
  assumes "mset xs = mset ys"
  shows "pack_list xs = pack_list ys \<and>
         (\<forall>k. pack_list xs k = (if k \<in> set xs then Some (int (count_list xs k)) else None))"
proof
  from assms show "pack_list xs = pack_list ys" by (simp add: pack_list_table)
next
  show "\<forall>k. pack_list xs k = (if k \<in> set xs then Some (int (count_list xs k)) else None)"
    by (simp add: pack_list_def map_of_map_restrict restrict_map_def)
qed

theorem pack_list_permutation_witness:
  "pack_list [''A'', ''B'', ''A''] = pack_list [''A'', ''A'', ''B''] \<and>
   pack_list [''A'', ''B'', ''A''] ''A'' = Some 2"
proof -
  have "mset [''A'', ''B'', ''A''] = mset [''A'', ''A'', ''B'']" by simp
  from pack_list_permutation [OF this]
  have "pack_list [''A'', ''B'', ''A''] = pack_list [''A'', ''A'', ''B'']"
    and "pack_list [''A'', ''B'', ''A''] ''A'' =
      (if ''A'' \<in> set [''A'', ''B'', ''A''] then Some (int (count_list [''A'', ''B'', ''A''] ''A''))
       else None)"
    by blast+
  then show ?thesis by simp
qed



text \<open>
  C10. \<^verbatim>\<open>str.lower\<close> of the empty string is the empty string. With the empty keyword
  every blueprint name then matches. The search raises no error, a result it returns has
  the stored names as its keys, each once and in the collection's order, and on an
  acyclic collection it returns such a result.
\<close>

theorem empty_keyword_matches_all:
  assumes "lower [] = []"
  shows "blueprint_matches lower bps [] = map fst bps \<and>
   find_keyword lower bps [] \<noteq> Some (Inl e) \<and>
   (find_keyword lower bps [] = Some (Inr d) \<longrightarrow> map fst d = map fst bps) \<and>
   (acyclic (ingredient_of bps) \<longrightarrow>
      (\<exists>d. find_keyword lower bps [] = Some (Inr d) \<and> map fst d = map fst bps))"
proof -
  note all = blueprint_matches_empty [of lower, OF assms]
  have keys: "map fst d = map fst bps" if "find_keyword lower bps [] = Some (Inr d)" for d
    using that resolve_matches_keys [of bps "blueprint_matches lower bps []" d]
    by (simp add: find_keyword_def all)
  have "find_keyword lower bps [] \<noteq> Some (Inl e)"
    unfolding find_keyword_def
    by (rule resolve_matches_no_error) (rule blueprint_matches_keys)
  moreover have "\<exists>d. find_keyword lower bps [] = Some (Inr d) \<and> map fst d = map fst bps"
    if "acyclic (ingredient_of bps)"
  proof -
    from that have "\<exists>d. find_keyword lower bps [] = Some (Inr d)"
      unfolding find_keyword_def
      by (rule resolve_matches_acyclic) (rule blueprint_matches_keys)
    with keys show ?thesis by blast
  qed
  ultimately show ?thesis using keys all by blast
qed

theorem empty_keyword_matches_all_witness:
  "find_keyword ascii_lower iron_db [] =
     Some (Inr [(''Iron Sword'', pack_list [''Scrap'', ''Scrap'']),
                (''Bronze Axe'', pack_list [''Scrap''])])"
proof -
  have "ascii_lower [] = []" by (simp add: ascii_lower_def)
  from empty_keyword_matches_all [of ascii_lower iron_db, OF this] acyclic_iron obtain d where
    d: "find_keyword ascii_lower iron_db [] = Some (Inr d)" "map fst d = map fst iron_db"
    by blast
  have keys: "map fst iron_db = [''Iron Sword'', ''Bronze Axe'']"
    by (simp add: iron_db_def bp_def)
  from d(1) have "\<forall>(k, v) \<in> set d. \<exists>found. find_materials iron_db k = Some (Inr found) \<and>
      v = pack_list found"
    unfolding find_keyword_def using resolve_matches_values by blast
  moreover from d(2) keys obtain v w where "d = [(''Iron Sword'', v), (''Bronze Axe'', w)]"
    by (auto simp: map_eq_Cons_conv)
  ultimately have "d = [(''Iron Sword'', pack_list [''Scrap'', ''Scrap'']),
      (''Bronze Axe'', pack_list [''Scrap''])]"
    by (simp add: iron_sword bronze_axe)
  with d(1) show ?thesis by simp
qed

text \<open>
  C9. On a store of objects, a call of \<^verbatim>\<open>find_materials\<close> or \<^verbatim>\<open>find_keyword\<close> that returns
  or raises hands back a store of which the store before the call is a prefix: every
  object that existed is unchanged, the call has only added objects and changed objects
  it has added itself. So the collection read from the store (names, types and materials
  of every blueprint) is the same after the call as before. \<^verbatim>\<open>size\<close> hands back the store
  as it was. \<^verbatim>\<open>add_blueprint\<close> changes the collection: afterwards the blueprint is stored
  under its name. The queries do their work all the same: where \<^verbatim>\<open>find_materials\<close> on the
  collection returns a list, the call on the store returns a new list object with these
  names.
\<close>

theorem queries_leave_store:
  "(find_materials_h st self item = Some (r1, st1) \<longrightarrow>
      prefix st st1 \<and> (collection_of st self = Some bps \<longrightarrow> collection_of st1 self = Some bps)) \<and>
   (find_keyword_h lower st self keyword = Some (r2, st2) \<longrightarrow>
      prefix st st2 \<and> (collection_of st self = Some bps \<longrightarrow> collection_of st2 self = Some bps)) \<and>
   snd (size_h st self) = st \<and>
   (collection_of st self = Some bps \<and> blueprint_at st b = Some bv \<longrightarrow>
      fst (add_blueprint_h st self b) = Inr (fst (add_blueprint bps bv)) \<and>
      collection_of (snd (add_blueprint_h st self b)) self =
        Some (AList.update (name bv) bv bps)) \<and>
   (collection_of st self = Some bps \<and> find_materials bps item = Some (Inr found) \<longrightarrow>
      (\<exists>a st'. find_materials_h st self item = Some (Inr a, st') \<and>
         read st' a = Some (Str_list found)))"
proof (intro conjI impI)
  assume "find_materials_h st self item = Some (r1, st1)"
  then show p: "prefix st st1" by (rule find_materials_h_keeps) simp
  assume "collection_of st self = Some bps"
  with p show "collection_of st1 self = Some bps" by (rule collection_of_keeps)
next
  assume "find_keyword_h lower st self keyword = Some (r2, st2)"
  then show p: "prefix st st2" by (rule find_keyword_h_keeps)
  assume "collection_of st self = Some bps"
  with p show "collection_of st2 self = Some bps" by (rule collection_of_keeps)
next
  show "snd (size_h st self) = st"
    by (simp add: size_h_def split: sum.splits)
next
  assume a: "collection_of st self = Some bps \<and> blueprint_at st b = Some bv"
  then show "fst (add_blueprint_h st self b) = Inr (fst (add_blueprint bps bv))"
    using add_blueprint_h_collection by blast
  from a show "collection_of (snd (add_blueprint_h st self b)) self =
      Some (AList.update (name bv) bv bps)"
    using add_blueprint_h_collection [of st self bps b bv] by (simp add: add_blueprint_def)
next
  assume "collection_of st self = Some bps \<and> find_materials bps item = Some (Inr found)"
  then show "\<exists>a st'. find_materials_h st self item = Some (Inr a, st') \<and>
      read st' a = Some (Str_list found)"
    using find_materials_h_refines [of st self bps item] by blast
qed

theorem queries_leave_store_witness:
  "collection_of (snd (the (find_materials_h nested_store 0 ''X''))) 0 = Some nested_db \<and>
   collection_of (snd (the (find_keyword_h ascii_lower nested_store 0 ''x''))) 0 = Some nested_db \<and>
   collection_of (snd (add_blueprint_h (nested_store @ [Blueprint_obj ''X'' ''relic'' 5]) 0 6)) 0 =
     Some [(''X'', \<lparr>name = ''X'', type = ''relic'', materials = [(''Z'', 3)]\<rparr>),
           bp ''Y'' [(''Z'', 3)]]"
proof -
  note c = nested_store_collection
  have 1: "collection_of (snd (the (find_materials_h nested_store 0 ''X''))) 0 = Some nested_db"
    using queries_leave_store [of nested_store 0 "''X''" _ _ nested_db] c
    by (simp add: nested_store_materials)
  have 2: "collection_of (snd (the (find_keyword_h ascii_lower nested_store 0 ''x''))) 0 =
      Some nested_db"
    using queries_leave_store [of nested_store 0 _ _ _ nested_db ascii_lower "''x''"] c
    by (simp add: nested_store_keyword)
  let ?st = "nested_store @ [Blueprint_obj ''X'' ''relic'' 5]"
  let ?bv = "\<lparr>name = ''X'', type = ''relic'', materials = [(''Z'', 3)]\<rparr>"
  have "collection_of ?st 0 = Some nested_db" by code_simp
  moreover have "blueprint_at ?st 6 = Some ?bv" by code_simp
  ultimately have "collection_of (snd (add_blueprint_h ?st 0 6)) 0 =
      Some (AList.update (name ?bv) ?bv nested_db)"
    using queries_leave_store [of ?st 0 _ _ _ nested_db _ _ _ _ 6 ?bv] by blast
  then have 3: "collection_of (snd (add_blueprint_h ?st 0 6)) 0 =
      Some [(''X'', ?bv), bp ''Y'' [(''Z'', 3)]]"
    by (simp add: nested_db_def bp_def)
  from 1 2 3 show ?thesis by blast
qed

end
